theory Spec2Isabelle
  imports Complex_Main
begin

section \<open>Python strings\<close>

text \<open>
  A Python \<open>str\<close> is modelled as a \<open>string\<close> (a list of \<open>char\<close>). A \<open>char\<close> stands for
  one code point below 256; the character classes below are Python's Unicode classes
  restricted to that range (\<open>str.isspace\<close>, which is also the regex class \<open>\s\<close> and what
  \<open>str.strip()\<close> removes; \<open>\w\<close>; \<open>\d\<close>; \<open>str.lower\<close>).
\<close>

definition py_isspace :: "char \<Rightarrow> bool" where
  "py_isspace c = (c \<in> {CHR 0x09, CHR 0x0A, CHR 0x0B, CHR 0x0C, CHR 0x0D,
                         CHR 0x1C, CHR 0x1D, CHR 0x1E, CHR 0x1F, CHR 0x20, CHR 0x85, CHR 0xA0})"

definition is_digit :: "char \<Rightarrow> bool" where
  \<comment> \<open>\<open>[0-9]\<close>, which is also \<open>\d\<close> below code point 256\<close>
  "is_digit c = (let n = (of_char c :: nat) in 48 \<le> n \<and> n \<le> 57)"

definition is_ascii_alpha :: "char \<Rightarrow> bool" where
  \<comment> \<open>\<open>[A-Za-z]\<close>\<close>
  "is_ascii_alpha c = (let n = (of_char c :: nat) in (65 \<le> n \<and> n \<le> 90) \<or> (97 \<le> n \<and> n \<le> 122))"

definition py_isalnum :: "char \<Rightarrow> bool" where
  \<comment> \<open>\<open>str.isalnum\<close>: letters, decimal digits, and the digit and numeric characters of Latin-1\<close>
  "py_isalnum c = (let n = (of_char c :: nat) in
     (48 \<le> n \<and> n \<le> 57) \<or> (65 \<le> n \<and> n \<le> 90) \<or> (97 \<le> n \<and> n \<le> 122) \<or>
     n = 170 \<or> n = 178 \<or> n = 179 \<or> n = 181 \<or> n = 185 \<or> n = 186 \<or>
     n = 188 \<or> n = 189 \<or> n = 190 \<or>
     (192 \<le> n \<and> n \<le> 214) \<or> (216 \<le> n \<and> n \<le> 246) \<or> 248 \<le> n)"

definition is_word_char :: "char \<Rightarrow> bool" where
  \<comment> \<open>the regex class \<open>\w\<close>\<close>
  "is_word_char c = (py_isalnum c \<or> c = CHR ''_'')"

definition lower_char :: "char \<Rightarrow> char" where
  "lower_char c = (let n = (of_char c :: nat) in
     if (65 \<le> n \<and> n \<le> 90) \<or> (192 \<le> n \<and> n \<le> 222 \<and> n \<noteq> 215) then char_of (n + 32) else c)"

definition lower :: "string \<Rightarrow> string" where
  "lower s = map lower_char s"

definition upper_char :: "char \<Rightarrow> char" where
  \<comment> \<open>\<open>str.upper\<close> on the characters that stay below code point 256 in upper case\<close>
  "upper_char c = (let n = (of_char c :: nat) in
     if (97 \<le> n \<and> n \<le> 122) \<or> (224 \<le> n \<and> n \<le> 254 \<and> n \<noteq> 247) then char_of (n - 32) else c)"

definition upper :: "string \<Rightarrow> string" where
  "upper s = map upper_char s"

definition lstrip :: "string \<Rightarrow> string" where
  "lstrip s = dropWhile py_isspace s"

definition rstrip :: "string \<Rightarrow> string" where
  "rstrip s = rev (dropWhile py_isspace (rev s))"

definition strip :: "string \<Rightarrow> string" where
  "strip s = rstrip (lstrip s)"

definition lstrip_chars :: "char set \<Rightarrow> string \<Rightarrow> string" where
  \<comment> \<open>\<open>s.lstrip(chars)\<close>\<close>
  "lstrip_chars cs s = dropWhile (\<lambda>c. c \<in> cs) s"

definition rstrip_chars :: "char set \<Rightarrow> string \<Rightarrow> string" where
  \<comment> \<open>\<open>s.rstrip(chars)\<close>\<close>
  "rstrip_chars cs s = rev (dropWhile (\<lambda>c. c \<in> cs) (rev s))"

definition strip_chars :: "char set \<Rightarrow> string \<Rightarrow> string" where
  \<comment> \<open>\<open>s.strip(chars)\<close>\<close>
  "strip_chars cs s = rstrip_chars cs (lstrip_chars cs s)"

definition startswith :: "string \<Rightarrow> string \<Rightarrow> bool" where
  "startswith s p = (take (length p) s = p)"

definition endswith :: "string \<Rightarrow> string \<Rightarrow> bool" where
  "endswith s p = (length p \<le> length s \<and> drop (length s - length p) s = p)"

section \<open>pdf\_markdown\_cleanup.py\<close>

definition is_fence_line :: "string \<Rightarrow> bool" where
  \<comment> \<open>\<open>any(s.startswith(prefix) for prefix in FENCE_PREFIXES)\<close>\<close>
  "is_fence_line s = (startswith s ''```'' \<or> startswith s ''~~~'')"

definition is_blank :: "char \<Rightarrow> bool" where
  \<comment> \<open>the regex class \<open>[ \t]\<close>\<close>
  "is_blank c = (c = CHR '' '' \<or> c = CHR 0x09)"

function sub_whitespace_run :: "string \<Rightarrow> string" where
  \<comment> \<open>\<open>WHITESPACE_RUN_RE.sub(" ", s)\<close>: every maximal run of two or more blanks becomes one space\<close>
  "sub_whitespace_run [] = []"
| "sub_whitespace_run (c # cs) =
     (if is_blank c \<and> takeWhile is_blank cs \<noteq> []
      then CHR '' '' # sub_whitespace_run (dropWhile is_blank cs)
      else c # sub_whitespace_run cs)"
  by pat_completeness auto
termination
  by (relation "measure length") (auto simp: length_dropWhile_le less_Suc_eq_le)

fun collapse_ws_loop :: "bool \<Rightarrow> string list \<Rightarrow> string list" where
  "collapse_ws_loop in_code [] = []"
| "collapse_ws_loop in_code (line # rest) =
     (let stripped = lstrip line in
      if is_fence_line stripped then rstrip line # collapse_ws_loop (\<not> in_code) rest
      else if in_code then rstrip line # collapse_ws_loop in_code rest
      else (let leading_len = length line - length (lstrip_chars {CHR '' ''} line);
                prefix = take leading_len line;
                rest_of_line = sub_whitespace_run (drop leading_len line)
            in rstrip (prefix @ rest_of_line) # collapse_ws_loop in_code rest))"

definition collapse_internal_whitespace :: "string list \<Rightarrow> string list" where
  "collapse_internal_whitespace lines = collapse_ws_loop False lines"

fun collapse_blank_lines_loop :: "nat \<Rightarrow> string list \<Rightarrow> string list" where
  "collapse_blank_lines_loop blank_streak [] = []"
| "collapse_blank_lines_loop blank_streak (line # rest) =
     (if line = ''''
      then (if blank_streak + 1 > 1 then collapse_blank_lines_loop (blank_streak + 1) rest
            else line # collapse_blank_lines_loop (blank_streak + 1) rest)
      else line # collapse_blank_lines_loop 0 rest)"

definition collapse_blank_lines :: "string list \<Rightarrow> string list" where
  "collapse_blank_lines lines = collapse_blank_lines_loop 0 lines"

definition list_marker_match :: "string \<Rightarrow> bool" where
  \<comment> \<open>\<open>LIST_MARKER_RE.match(s)\<close>, the pattern
      \<open>^(?:[-*+]\s+|\d+[.)]\s+|[A-Za-z][.)]\s+)\<close>\<close>
  "list_marker_match s =
     ((case s of c # d # _ \<Rightarrow> c \<in> {CHR ''-'', CHR ''*'', CHR ''+''} \<and> py_isspace d | _ \<Rightarrow> False)
      \<or> (takeWhile is_digit s \<noteq> [] \<and>
          (case dropWhile is_digit s of c # d # _ \<Rightarrow> c \<in> {CHR ''.'', CHR '')''} \<and> py_isspace d
           | _ \<Rightarrow> False))
      \<or> (case s of a # c # d # _ \<Rightarrow> is_ascii_alpha a \<and> c \<in> {CHR ''.'', CHR '')''} \<and> py_isspace d
          | _ \<Rightarrow> False))"

definition footnote_def_match :: "string \<Rightarrow> bool" where
  \<comment> \<open>\<open>FOOTNOTE_DEF_RE.match(s)\<close>, the pattern \<open>^\[\^[^\]]+\]:\<close>\<close>
  "footnote_def_match s =
     (startswith s ''[^'' \<and>
      (let r = drop 2 s in
       takeWhile (\<lambda>c. c \<noteq> CHR '']'') r \<noteq> [] \<and>
       startswith (dropWhile (\<lambda>c. c \<noteq> CHR '']'') r) '']:''))"

definition is_paragraph_candidate :: "string \<Rightarrow> bool" where
  "is_paragraph_candidate original_line =
     (let stripped = strip original_line in
      if stripped = [] then False
      else if length original_line - length (lstrip_chars {CHR '' ''} original_line) \<ge> 4 then False
      else if startswith stripped ''#'' then False
      else if startswith stripped ''>'' then False
      else if startswith stripped ''|'' then False
      else if stripped \<in> {''---'', ''***'', ''___''} then False
      else if startswith stripped ''<'' \<and> endswith stripped ''>'' then False
      else if list_marker_match stripped then False
      else if footnote_def_match stripped then False
      else True)"

fun combine_loop :: "string \<Rightarrow> string list \<Rightarrow> string" where
  "combine_loop combined [] = combined"
| "combine_loop combined (part # rest) =
     (let chunk = strip part in
      if chunk = [] then combine_loop combined rest
      else if combined \<noteq> [] then
        (if endswith combined ''-'' \<and> \<not> endswith combined ''--''
         then combine_loop (butlast combined @ chunk) rest
         else combine_loop (combined @ '' '' @ chunk) rest)
      else combine_loop chunk rest)"

definition combine_paragraph_lines :: "string list \<Rightarrow> string" where
  "combine_paragraph_lines lines = combine_loop [] lines"

text \<open>
  \<open>unwrap_paragraphs\<close> keeps three variables across its loop: the output \<open>result\<close>, the
  pending \<open>buffer\<close> and the flag \<open>in_code_block\<close>. The nested \<open>flush_buffer\<close> updates the
  first two.
\<close>

record unwrap_state =
  result :: "string list"
  buffer :: "string list"
  in_code_block :: bool

definition flush_buffer :: "unwrap_state \<Rightarrow> unwrap_state" where
  "flush_buffer st =
     (if buffer st = [] then st
      else (let paragraph = combine_paragraph_lines (buffer st) in
            (if paragraph \<noteq> [] then st\<lparr>result := result st @ [paragraph, '''']\<rparr> else st)
              \<lparr>buffer := []\<rparr>))"

definition unwrap_step :: "unwrap_state \<Rightarrow> string \<Rightarrow> unwrap_state" where
  "unwrap_step st line =
     (let current = rstrip line; stripped_leading = lstrip current in
      if is_fence_line stripped_leading then
        (let st' = flush_buffer st in
         st'\<lparr>in_code_block := \<not> in_code_block st', result := result st' @ [current]\<rparr>)
      else if in_code_block st then st\<lparr>result := result st @ [current]\<rparr>
      else if strip current = [] then
        (let st' = flush_buffer st in st'\<lparr>result := result st' @ ['''']\<rparr>)
      else if is_paragraph_candidate current then st\<lparr>buffer := buffer st @ [current]\<rparr>
      else (let st' = flush_buffer st in st'\<lparr>result := result st' @ [current]\<rparr>))"

fun unwrap_loop :: "unwrap_state \<Rightarrow> string list \<Rightarrow> unwrap_state" where
  "unwrap_loop st [] = st"
| "unwrap_loop st (line # rest) = unwrap_loop (unwrap_step st line) rest"

definition unwrap_paragraphs :: "string list \<Rightarrow> string list" where
  "unwrap_paragraphs lines =
     (let st = flush_buffer (unwrap_loop \<lparr>result = [], buffer = [], in_code_block = False\<rparr> lines);
          res = result st
      in if res \<noteq> [] \<and> last res = '''' then butlast res else res)"

definition is_linebreak :: "char \<Rightarrow> bool" where
  \<comment> \<open>the line boundaries of \<open>str.splitlines\<close> below code point 256\<close>
  "is_linebreak c = (c \<in> {CHR 0x0A, CHR 0x0B, CHR 0x0C, CHR 0x0D, CHR 0x1C, CHR 0x1D, CHR 0x1E, CHR 0x85})"

fun splitlines_loop :: "string \<Rightarrow> bool \<Rightarrow> string \<Rightarrow> string list" where
  \<comment> \<open>\<open>cur\<close> is the line read so far; \<open>after_cr\<close> says the last character was a carriage
      return, whose line feed belongs to the same boundary\<close>
  "splitlines_loop cur after_cr [] = (if cur = [] then [] else [cur])"
| "splitlines_loop cur after_cr (c # cs) =
     (if after_cr \<and> c = CHR 0x0A then splitlines_loop cur False cs
      else if is_linebreak c then cur # splitlines_loop [] (c = CHR 0x0D) cs
      else splitlines_loop (cur @ [c]) False cs)"

definition splitlines :: "string \<Rightarrow> string list" where
  "splitlines text = splitlines_loop [] False text"

fun join_lines :: "string list \<Rightarrow> string" where
  \<comment> \<open>\<open>"\n".join(lines)\<close>\<close>
  "join_lines [] = []"
| "join_lines [l] = l"
| "join_lines (l # ls) = l @ [CHR 0x0A] @ join_lines ls"

definition replace_nbsp :: "string \<Rightarrow> string" where
  \<comment> \<open>\<open>text.replace("\u00a0", " ")\<close>\<close>
  "replace_nbsp text = map (\<lambda>c. if c = CHR 0xA0 then CHR '' '' else c) text"

definition normalise_text :: "string \<Rightarrow> string" where
  "normalise_text text =
     (let lines = splitlines (replace_nbsp text);
          lines = unwrap_paragraphs lines;
          lines = collapse_internal_whitespace lines;
          lines = collapse_blank_lines lines
      in strip (join_lines lines) @ [CHR 0x0A])"

section \<open>epub\_markdown\_cleanup.py: headings and the table of contents\<close>

definition HEADING_PATTERN_match :: "string \<Rightarrow> (nat \<times> string) option" where
  \<comment> \<open>\<open>HEADING_PATTERN.match(line)\<close> for \<open>^(#{1,6})\s+(.*)$\<close>: the length of group 1 and
      group 2. The dot matches no line feed, and \<open>$\<close> matches at the end or before a final
      line feed.\<close>
  "HEADING_PATTERN_match line =
     (let hashes = takeWhile (\<lambda>c. c = CHR ''#'') line;
          r = dropWhile (\<lambda>c. c = CHR ''#'') line
      in if length hashes < 1 \<or> 6 < length hashes then None
         else (case r of
                 [] \<Rightarrow> None
               | c # _ \<Rightarrow>
                   if \<not> py_isspace c then None
                   else (let t = dropWhile py_isspace r;
                             body = takeWhile (\<lambda>c. c \<noteq> CHR 0x0A) t;
                             rem = dropWhile (\<lambda>c. c \<noteq> CHR 0x0A) t
                         in if rem = [] \<or> rem = [CHR 0x0A] then Some (length hashes, body)
                            else None)))"

function sub_runs :: "(char \<Rightarrow> bool) \<Rightarrow> string \<Rightarrow> string \<Rightarrow> string" where
  \<comment> \<open>\<open>re.sub(r"C+", repl, s)\<close> for a character class \<open>C\<close>: every maximal run becomes \<open>repl\<close>\<close>
  "sub_runs P repl [] = []"
| "sub_runs P repl (c # cs) =
     (if P c then repl @ sub_runs P repl (dropWhile P cs) else c # sub_runs P repl cs)"
  by pat_completeness auto
termination
  by (relation "measure (\<lambda>(P, repl, s). length s)") (auto simp: length_dropWhile_le less_Suc_eq_le)

definition slugify_heading :: "string \<Rightarrow> string" where
  "slugify_heading text =
     (let slug = lower (strip text);
          slug = filter (\<lambda>c. is_word_char c \<or> py_isspace c \<or> c = CHR ''-'') slug;
          slug = sub_runs py_isspace ''-'' slug;
          slug = sub_runs (\<lambda>c. c = CHR ''-'') ''-'' slug
      in strip_chars {CHR ''-''} slug)"

definition digit_char :: "nat \<Rightarrow> char" where
  "digit_char d = char_of (48 + d)"

fun str_of_nat :: "nat \<Rightarrow> string" where
  \<comment> \<open>the decimal numeral that an f-string renders for a non-negative \<open>int\<close>\<close>
  "str_of_nat n = (if n < 10 then [digit_char n] else str_of_nat (n div 10) @ [digit_char (n mod 10)])"

definition toc_titles :: "string set" where
  "toc_titles = {''table of contents'', ''table of content''}"

record demote_state =
  d_in_code_block :: bool
  new_lines :: "string list"
  toc_entries :: "(string \<times> string) list"
  first_heading_text :: "string option"
  slug_counts :: "string \<rightharpoonup> nat"

definition demote_step :: "demote_state \<Rightarrow> string \<Rightarrow> demote_state" where
  "demote_step st line =
     (let stripped = strip line in
      if startswith stripped ''```'' \<or> startswith stripped ''~~~'' then
        st\<lparr>d_in_code_block := \<not> d_in_code_block st, new_lines := new_lines st @ [line]\<rparr>
      else if d_in_code_block st then st\<lparr>new_lines := new_lines st @ [line]\<rparr>
      else
        (case HEADING_PATTERN_match line of
           None \<Rightarrow> st\<lparr>new_lines := new_lines st @ [line]\<rparr>
         | Some (level, group2) \<Rightarrow>
             (let text = strip group2;
                  normalized = rstrip_chars {CHR '':''} (lower text);
                  first = (if first_heading_text st = None \<and> normalized \<notin> toc_titles
                           then Some text else first_heading_text st);
                  new_level = (if level = 1 then 2 else level);
                  heading = rstrip (replicate new_level CHR ''#'' @ '' '' @ text)
              in if new_level = 2 \<and> normalized \<notin> toc_titles then
                   (let base_slug = (if slugify_heading text = [] then ''section''
                                     else slugify_heading text);
                        count = (case slug_counts st base_slug of None \<Rightarrow> 0 | Some n \<Rightarrow> n);
                        slug_id = (if count = 0 then base_slug
                                   else base_slug @ ''-'' @ str_of_nat count);
                        new_line = (if slug_id \<noteq> [] then heading @ '' {#'' @ slug_id @ ''}''
                                    else heading)
                    in st\<lparr>new_lines := new_lines st @ [new_line],
                          toc_entries := toc_entries st @ [(text, slug_id)],
                          first_heading_text := first,
                          slug_counts := (slug_counts st)(base_slug \<mapsto> count + 1)\<rparr>)
                 else st\<lparr>new_lines := new_lines st @ [heading], first_heading_text := first\<rparr>)))"

fun demote_loop :: "demote_state \<Rightarrow> string list \<Rightarrow> demote_state" where
  "demote_loop st [] = st"
| "demote_loop st (line # rest) = demote_loop (demote_step st line) rest"

definition demote_headings :: "string list \<Rightarrow> string list \<times> (string \<times> string) list \<times> string option" where
  "demote_headings lines =
     (let st = demote_loop \<lparr>d_in_code_block = False, new_lines = [], toc_entries = [],
                            first_heading_text = None, slug_counts = Map.empty\<rparr> lines
      in (new_lines st, toc_entries st, first_heading_text st))"

definition build_toc_lines :: "(string \<times> string) list \<Rightarrow> string list" where
  "build_toc_lines entries =
     (if entries = [] then []
      else [''## Table of Contents'', ''''] @
           map (\<lambda>(text, slug). ''- ['' @ text @ ''](#'' @ slug @ '')'') entries @ [''''])"




section \<open>epub\_markdown\_cleanup.py: ISBN\<close>

definition is_isbn_char :: "char \<Rightarrow> bool" where
  \<comment> \<open>the regex class \<open>[0-9Xx]\<close>\<close>
  "is_isbn_char c = (is_digit c \<or> c = CHR ''X'' \<or> c = CHR ''x'')"

definition py_isdigit_char :: "char \<Rightarrow> bool" where
  \<comment> \<open>a character that \<open>str.isdigit\<close> accepts: a decimal digit or a superscript digit\<close>
  "py_isdigit_char c = (is_digit c \<or> c \<in> {CHR 0xB2, CHR 0xB3, CHR 0xB9})"

definition py_isdigit :: "string \<Rightarrow> bool" where
  "py_isdigit s = (s \<noteq> [] \<and> list_all py_isdigit_char s)"

definition normalize_isbn :: "string option \<Rightarrow> string option" where
  "normalize_isbn raw =
     (case raw of
        None \<Rightarrow> None
      | Some r \<Rightarrow>
          if r = [] then None
          else (let cleaned = filter is_isbn_char r in
                if length cleaned = 13 \<and> py_isdigit cleaned then Some cleaned
                else if length cleaned = 10 \<and> list_all is_digit (take 9 cleaned) \<and>
                        is_isbn_char (cleaned ! 9)
                then Some (upper cleaned)
                else None))"

definition is_isbn_body_char :: "char \<Rightarrow> bool" where
  \<comment> \<open>the regex class \<open>[0-9Xx\s-]\<close>\<close>
  "is_isbn_body_char c = (is_isbn_char c \<or> py_isspace c \<or> c = CHR ''-'')"

definition ISBN_PATTERN_match_at :: "char option \<Rightarrow> string \<Rightarrow> (string \<times> nat) option" where
  \<comment> \<open>one attempt of \<open>ISBN_PATTERN\<close>, the case-insensitive
      \<open>\bISBN(?:-1[03])?:?\s*([0-9][0-9Xx\s-]{8,}[0-9Xx])\<close>, at a position of the text:
      \<open>prev\<close> is the character before the position (none at the start), \<open>s\<close> the text from the
      position on. The result is group 1 and the length of the match. Each optional part is
      greedy and is followed by something it cannot start, so the attempt has one way to
      succeed; the group ends at the last \<open>[0-9Xx]\<close> of the longest run of \<open>[0-9Xx\s-]\<close>.\<close>
  "ISBN_PATTERN_match_at prev s =
     (if (case prev of None \<Rightarrow> False | Some p \<Rightarrow> is_word_char p) then None
      else if lower (take 4 s) \<noteq> ''isbn'' then None
      else (let r1 = drop 4 s;
                n1 = (if startswith r1 ''-10'' \<or> startswith r1 ''-13'' then 3 else 0);
                r2 = drop n1 r1;
                n2 = (if startswith r2 '':'' then 1 else 0);
                r3 = drop n2 r2;
                n3 = length (takeWhile py_isspace r3);
                r4 = drop n3 r3
            in case r4 of
                 [] \<Rightarrow> None
               | d # r5 \<Rightarrow>
                   if \<not> is_digit d then None
                   else (let run = takeWhile is_isbn_body_char r5;
                             body = rev (dropWhile (\<lambda>c. \<not> is_isbn_char c) (rev run))
                         in if length body < 9 then None
                            else Some (d # body, 4 + n1 + n2 + n3 + 1 + length body))))"

fun ISBN_PATTERN_finditer :: "char option \<Rightarrow> nat \<Rightarrow> string \<Rightarrow> string list" where
  \<comment> \<open>group 1 of the matches of \<open>ISBN_PATTERN.finditer(text)\<close>, from left to right; \<open>skip\<close>
      counts the characters of the last match that are still to pass, since matches do not
      overlap\<close>
  "ISBN_PATTERN_finditer prev skip [] = []"
| "ISBN_PATTERN_finditer prev skip (c # cs) =
     (if skip > 0 then ISBN_PATTERN_finditer (Some c) (skip - 1) cs
      else (case ISBN_PATTERN_match_at prev (c # cs) of
              None \<Rightarrow> ISBN_PATTERN_finditer (Some c) 0 cs
            | Some (group1, n) \<Rightarrow> group1 # ISBN_PATTERN_finditer (Some c) (n - 1) cs))"

fun first_isbn :: "string list \<Rightarrow> string option" where
  \<comment> \<open>both loops of \<open>extract_isbn\<close>: the first candidate that normalises\<close>
  "first_isbn [] = None"
| "first_isbn (candidate # rest) =
     (case normalize_isbn (Some candidate) of
        Some normalized \<Rightarrow> Some normalized
      | None \<Rightarrow> first_isbn rest)"

definition extract_isbn :: "string \<Rightarrow> string list \<Rightarrow> string option" where
  \<comment> \<open>\<open>fallback_identifiers\<close> is a list; the default \<open>None\<close> of the source is the empty list\<close>
  "extract_isbn text fallback_identifiers =
     (case first_isbn (ISBN_PATTERN_finditer None 0 text) of
        Some normalized \<Rightarrow> Some normalized
      | None \<Rightarrow> first_isbn fallback_identifiers)"

section \<open>epub\_markdown\_cleanup.py: front matter\<close>

text \<open>
  A metadata value is a string or a list of strings. The metadata \<open>dict\<close> is a list of
  key-value pairs in insertion order, with each key at most once: assigning to a key that is
  present keeps its place, assigning to a new key appends it.
\<close>

datatype fm_value = Scalar string | Items "string list"

type_synonym metadata = "(string \<times> fm_value) list"

fun dict_set :: "metadata \<Rightarrow> string \<Rightarrow> fm_value \<Rightarrow> metadata" where
  "dict_set [] k v = [(k, v)]"
| "dict_set ((k', v') # ps) k v = (if k' = k then (k, v) # ps else (k', v') # dict_set ps k v)"

definition dict_get :: "metadata \<Rightarrow> string \<Rightarrow> fm_value option" where
  "dict_get md k = map_of md k"

definition dquote :: char where
  "dquote = CHR 0x22"

definition squote :: char where
  "squote = CHR 0x27"

record parse_state =
  p_metadata :: metadata
  p_order :: "string list"
  p_quoted :: "string set"
  current_key :: "string option"

definition parse_line :: "parse_state \<Rightarrow> string \<Rightarrow> parse_state option" where
  \<comment> \<open>the body of the loop of \<open>parse_front_matter_block\<close>; \<open>None\<close> is its \<open>return None\<close>\<close>
  "parse_line st raw =
     (let stripped = strip raw in
      if stripped = [] \<or> startswith stripped ''#'' then Some st
      else if startswith stripped ''- '' then
        (case current_key st of
           None \<Rightarrow> None
         | Some ck \<Rightarrow>
             if ck = [] then None
             else (case dict_get (p_metadata st) ck of
                     Some (Items xs) \<Rightarrow>
                       Some (st\<lparr>p_metadata :=
                                  dict_set (p_metadata st) ck (Items (xs @ [strip (drop 2 stripped)]))\<rparr>)
                   | _ \<Rightarrow> None))
      else if CHR '':'' \<in> set raw then
        (let key_part = takeWhile (\<lambda>c. c \<noteq> CHR '':'') raw;
             value_part = drop 1 (dropWhile (\<lambda>c. c \<noteq> CHR '':'') raw);
             key = strip key_part
         in if key = [] then None
            else (let val = strip value_part;
                      order = (if key \<notin> set (p_order st) then p_order st @ [key] else p_order st)
                  in if val = [] then
                       Some (st\<lparr>p_metadata := dict_set (p_metadata st) key (Items []),
                                 p_order := order, current_key := Some key\<rparr>)
                     else if (startswith val [dquote] \<and> endswith val [dquote]) \<or>
                             (startswith val [squote] \<and> endswith val [squote])
                     then Some (st\<lparr>p_metadata := dict_set (p_metadata st) key (Scalar (butlast (tl val))),
                                    p_order := order, p_quoted := insert key (p_quoted st),
                                    current_key := Some key\<rparr>)
                     else Some (st\<lparr>p_metadata := dict_set (p_metadata st) key (Scalar val),
                                    p_order := order, current_key := Some key\<rparr>)))
      else None)"

fun parse_loop :: "parse_state \<Rightarrow> string list \<Rightarrow> parse_state option" where
  "parse_loop st [] = Some st"
| "parse_loop st (raw # rest) =
     (case parse_line st raw of None \<Rightarrow> None | Some st' \<Rightarrow> parse_loop st' rest)"

definition parse_front_matter_block ::
  "string list \<Rightarrow> (metadata \<times> string list \<times> string set) option" where
  "parse_front_matter_block lines =
     (if lines = [] \<or> strip (hd lines) \<noteq> ''---'' \<or> strip (last lines) \<noteq> ''---'' then None
      else (case parse_loop \<lparr>p_metadata = [], p_order = [], p_quoted = {}, current_key = None\<rparr>
                   (butlast (tl lines)) of
              None \<Rightarrow> None
            | Some st \<Rightarrow> Some (p_metadata st, p_order st, p_quoted st)))"

fun contains :: "string \<Rightarrow> string \<Rightarrow> bool" where
  \<comment> \<open>\<open>sub in s\<close>\<close>
  "contains [] sub = (sub = [])"
| "contains (c # cs) sub = (startswith (c # cs) sub \<or> contains cs sub)"

definition needs_quotes :: "string \<Rightarrow> bool" where
  "needs_quotes val =
     (if val = [] \<or> val \<noteq> strip val then True
      else if list_ex (\<lambda>ch. ch \<in> set val) [CHR '':'', CHR ''#'', dquote, squote] then True
      else if list_ex py_isspace val \<and> (contains val ''::'' \<or> startswith val ''http'') then True
      else if lower val \<in> {''true'', ''false'', ''null'', ''~''} then True
      else False)"

definition escape_quotes :: "string \<Rightarrow> string" where
  \<comment> \<open>\<open>text.replace("\"", "\\\"")\<close>\<close>
  "escape_quotes text = concat (map (\<lambda>c. if c = dquote then [CHR 0x5C, dquote] else [c]) text)"

definition format_scalar_value :: "string option \<Rightarrow> bool \<Rightarrow> string" where
  "format_scalar_value v force_quotes =
     (let text = (case v of None \<Rightarrow> [] | Some s \<Rightarrow> s) in
      if force_quotes \<or> needs_quotes text then [dquote] @ escape_quotes text @ [dquote]
      else text)"

definition serialize_key :: "metadata \<Rightarrow> string set \<Rightarrow> string \<Rightarrow> string list" where
  \<comment> \<open>the lines that the loop of \<open>serialize_front_matter\<close> appends for one key\<close>
  "serialize_key md quoted key =
     (case dict_get md key of
        Some (Items items) \<Rightarrow>
          (key @ '':'') # map (\<lambda>item. ''  - '' @ format_scalar_value (Some item) False) items
      | Some (Scalar s) \<Rightarrow> [key @ '': '' @ format_scalar_value (Some s) (key \<in> quoted)]
      | None \<Rightarrow> [key @ '': '' @ format_scalar_value None (key \<in> quoted)])"

fun serialize_loop :: "metadata \<Rightarrow> string set \<Rightarrow> string list \<Rightarrow> string list \<Rightarrow> string list" where
  \<comment> \<open>\<open>seen\<close> holds the keys already written\<close>
  "serialize_loop md quoted seen [] = []"
| "serialize_loop md quoted seen (key # keys) =
     (if key \<in> set seen then serialize_loop md quoted seen keys
      else serialize_key md quoted key @ serialize_loop md quoted (key # seen) keys)"

definition serialize_front_matter :: "metadata \<Rightarrow> string list \<Rightarrow> string set \<Rightarrow> string list" where
  "serialize_front_matter md order quoted =
     [''---''] @
     serialize_loop md quoted [] (order @ filter (\<lambda>k. k \<notin> set order) (map fst md)) @
     [''---'']"

text \<open>
  The start of \<open>adjust_headings_and_build_toc\<close> splits the lines of the document into the
  front-matter lines and the body lines, and parses the former.
\<close>

fun scan_front_matter :: "string list \<Rightarrow> string list \<times> string list" where
  \<comment> \<open>the \<open>for ... else\<close> loop over \<open>lines[1:]\<close>: the lines taken into \<open>front_matter_lines\<close>, and
      \<open>lines[body_start:]\<close>\<close>
  "scan_front_matter [] = ([], [])"
| "scan_front_matter (line # rest) =
     (if strip line = ''---'' then ([line], rest)
      else (let (taken, body) = scan_front_matter rest in (line # taken, body)))"

record front_matter_split =
  front_matter_lines :: "string list"
  body_lines :: "string list"
  parsed_metadata :: "(metadata \<times> string list \<times> string set) option"

definition split_front_matter :: "string list \<Rightarrow> front_matter_split" where
  "split_front_matter lines =
     (if lines \<noteq> [] \<and> strip (hd lines) = ''---'' then
        (let (taken, body) = scan_front_matter (tl lines);
             fm = hd lines # taken
         in \<lparr>front_matter_lines = fm, body_lines = body,
             parsed_metadata = parse_front_matter_block fm\<rparr>)
      else \<lparr>front_matter_lines = [], body_lines = lines, parsed_metadata = None\<rparr>)"

section \<open>pdf\_to\_markdown.py\<close>

text \<open>
  The page layouts come from an external extractor. A page is modelled by its height, which
  may be missing, and its text lines in reading order; a text line by its text and its two
  vertical bounds. The coordinates are Python \<open>float\<close> values: their type is a parameter \<open>'c\<close> of
  the model, and the float operations that the code applies to them (the subtraction, the
  comparison and the literal \<open>792.0\<close>) are parameters as well, collected in a record. A compiled
  skip pattern is modelled by the predicate that its \<open>search\<close> decides.
\<close>

datatype region = Header | Footer | Body

record 'c float_ops =
  fsub :: "'c \<Rightarrow> 'c \<Rightarrow> 'c"
  fle :: "'c \<Rightarrow> 'c \<Rightarrow> bool"
  f792 :: 'c

record 'c text_line =
  get_text :: string
  y1 :: 'c
  y0 :: 'c

record 'c page_layout =
  height :: "'c option"
  text_lines :: "'c text_line list"

record 'c ExtractionConfig =
  margin_top :: 'c
  margin_bottom :: 'c
  min_repeating :: int
  skip_patterns :: "(string \<Rightarrow> bool) list"

definition should_skip_text :: "string \<Rightarrow> (string \<Rightarrow> bool) list \<Rightarrow> bool" where
  "should_skip_text text patterns =
     (let stripped = strip text in
      if stripped = [] then True else list_ex (\<lambda>pattern. pattern stripped) patterns)"

definition ends_here :: "string \<Rightarrow> bool" where
  \<comment> \<open>\<open>$\<close> matches and nothing is left: the end of the text, or a last line feed\<close>
  "ends_here r = (r = [] \<or> r = [CHR 0x0A])"

definition fraction_tail :: "string \<Rightarrow> bool" where
  \<comment> \<open>the rest of a pattern after a page number, \<open>\s*/\s*\d+$\<close>\<close>
  "fraction_tail r =
     (case dropWhile py_isspace r of
        [] \<Rightarrow> False
      | c # r' \<Rightarrow>
          c = CHR ''/'' \<and>
          (let r'' = dropWhile py_isspace r' in
           takeWhile is_digit r'' \<noteq> [] \<and> ends_here (dropWhile is_digit r'')))"

definition bare_page_number :: "string \<Rightarrow> bool" where
  \<comment> \<open>\<open>search\<close> of the first default skip pattern, \<open>^\d+$\<close>\<close>
  "bare_page_number s = (takeWhile is_digit s \<noteq> [] \<and> ends_here (dropWhile is_digit s))"

definition page_n_pattern :: "string \<Rightarrow> bool" where
  \<comment> \<open>\<open>search\<close> of the second default skip pattern, the case-insensitive
      \<open>^page\s+\d+(\s*/\s*\d+)?$\<close>\<close>
  "page_n_pattern s =
     (lower (take 4 s) = ''page'' \<and>
      (let r = drop 4 s; r1 = dropWhile py_isspace r; r2 = dropWhile is_digit r1 in
       takeWhile py_isspace r \<noteq> [] \<and> takeWhile is_digit r1 \<noteq> [] \<and>
       (ends_here r2 \<or> fraction_tail r2)))"

definition n_of_m_pattern :: "string \<Rightarrow> bool" where
  \<comment> \<open>\<open>search\<close> of the third default skip pattern, \<open>^\d+\s*/\s*\d+$\<close>\<close>
  "n_of_m_pattern s = (takeWhile is_digit s \<noteq> [] \<and> fraction_tail (dropWhile is_digit s))"

definition isbn_line_pattern :: "string \<Rightarrow> bool" where
  \<comment> \<open>\<open>search\<close> of the fourth default skip pattern, the case-insensitive \<open>^isbn\b.*$\<close>\<close>
  "isbn_line_pattern s =
     (lower (take 4 s) = ''isbn'' \<and>
      (let r = drop 4 s in
       (case r of [] \<Rightarrow> True | c # _ \<Rightarrow> \<not> is_word_char c) \<and>
       ends_here (dropWhile (\<lambda>c. c \<noteq> CHR 0x0A) r)))"

definition DEFAULT_SKIP_PATTERNS :: "(string \<Rightarrow> bool) list" where
  "DEFAULT_SKIP_PATTERNS = [bare_page_number, page_n_pattern, n_of_m_pattern, isbn_line_pattern]"

definition counter_incr :: "(string \<rightharpoonup> nat) \<Rightarrow> string \<Rightarrow> (string \<rightharpoonup> nat)" where
  \<comment> \<open>\<open>counts[text] += 1\<close> on a \<open>Counter\<close>\<close>
  "counter_incr counts text = counts(text \<mapsto> (case counts text of None \<Rightarrow> 0 | Some n \<Rightarrow> n) + 1)"

definition classify ::
  "'c float_ops \<Rightarrow> 'c ExtractionConfig \<Rightarrow> 'c \<Rightarrow> 'c text_line \<Rightarrow> region" where
  \<comment> \<open>the region test on one line: \<open>page_height - y_top <= config.margin_top\<close>, then
      \<open>y_bottom <= config.margin_bottom\<close>\<close>
  "classify ops config page_height line =
     (if fle ops (fsub ops page_height (y1 line)) (margin_top config) then Header
      else if fle ops (y0 line) (margin_bottom config) then Footer
      else Body)"

record collect_state =
  pages :: "(string \<times> region) list list"
  header_counts :: "string \<rightharpoonup> nat"
  footer_counts :: "string \<rightharpoonup> nat"
  total_pages :: nat

record page_state =
  page_entries :: "(string \<times> region) list"
  p_header_counts :: "string \<rightharpoonup> nat"
  p_footer_counts :: "string \<rightharpoonup> nat"

definition line_step ::
  "'c float_ops \<Rightarrow> 'c ExtractionConfig \<Rightarrow> 'c \<Rightarrow> page_state \<Rightarrow> 'c text_line \<Rightarrow> page_state" where
  \<comment> \<open>the body of the loop over the text lines of one page\<close>
  "line_step ops config page_height st line =
     (let text = strip (get_text line) in
      if text = [] then st
      else (case classify ops config page_height line of
              Header \<Rightarrow> st\<lparr>page_entries := page_entries st @ [(text, Header)],
                            p_header_counts := counter_incr (p_header_counts st) text\<rparr>
            | Footer \<Rightarrow> st\<lparr>page_entries := page_entries st @ [(text, Footer)],
                            p_footer_counts := counter_incr (p_footer_counts st) text\<rparr>
            | Body \<Rightarrow> st\<lparr>page_entries := page_entries st @ [(text, Body)]\<rparr>))"

fun line_loop ::
  "'c float_ops \<Rightarrow> 'c ExtractionConfig \<Rightarrow> 'c \<Rightarrow> page_state \<Rightarrow> 'c text_line list \<Rightarrow> page_state" where
  "line_loop ops config page_height st [] = st"
| "line_loop ops config page_height st (line # rest) =
     line_loop ops config page_height (line_step ops config page_height st line) rest"

definition page_step ::
  "'c float_ops \<Rightarrow> 'c ExtractionConfig \<Rightarrow> collect_state \<Rightarrow> 'c page_layout \<Rightarrow> collect_state" where
  \<comment> \<open>the body of the loop over the pages; a page without a height counts as 792 points high\<close>
  "page_step ops config st page =
     (let page_height = (case height page of None \<Rightarrow> f792 ops | Some h \<Rightarrow> h);
          ps = line_loop ops config page_height
                 \<lparr>page_entries = [], p_header_counts = header_counts st,
                  p_footer_counts = footer_counts st\<rparr> (text_lines page)
      in \<lparr>pages = pages st @ [page_entries ps], header_counts = p_header_counts ps,
          footer_counts = p_footer_counts ps, total_pages = total_pages st + 1\<rparr>)"

fun page_loop ::
  "'c float_ops \<Rightarrow> 'c ExtractionConfig \<Rightarrow> collect_state \<Rightarrow> 'c page_layout list \<Rightarrow> collect_state" where
  "page_loop ops config st [] = st"
| "page_loop ops config st (page # rest) = page_loop ops config (page_step ops config st page) rest"

definition in_drop_set :: "(string \<rightharpoonup> nat) \<Rightarrow> int \<Rightarrow> string \<Rightarrow> bool" where
  \<comment> \<open>\<open>text in {text for text, count in counts.items() if count >= min_repeating}\<close>\<close>
  "in_drop_set counts min_rep text =
     (case counts text of None \<Rightarrow> False | Some count \<Rightarrow> min_rep \<le> int count)"

definition keep_entry ::
  "'c ExtractionConfig \<Rightarrow> (string \<rightharpoonup> nat) \<Rightarrow> (string \<rightharpoonup> nat) \<Rightarrow> int \<Rightarrow> string \<times> region \<Rightarrow> bool" where
  \<comment> \<open>the three \<open>continue\<close> tests of the output loop, negated\<close>
  "keep_entry config hc fc min_rep entry =
     (case entry of (text, region) \<Rightarrow>
        if region = Header \<and> in_drop_set hc min_rep text then False
        else if region = Footer \<and> in_drop_set fc min_rep text then False
        else if should_skip_text text (skip_patterns config) then False
        else True)"

fun output_loop ::
  "((string \<times> region) \<Rightarrow> bool) \<Rightarrow> string list \<Rightarrow> (string \<times> region) list list \<Rightarrow> string list" where
  "output_loop keep output_lines [] = output_lines"
| "output_loop keep output_lines (entries # rest) =
     (let page_lines = map fst (filter keep entries) in
      if page_lines = [] then output_loop keep output_lines rest
      else output_loop keep
             ((if output_lines \<noteq> [] \<and> last output_lines \<noteq> '''' then output_lines @ ['''']
               else output_lines) @ page_lines) rest)"

fun normalize_blank_loop :: "string list \<Rightarrow> string list \<Rightarrow> string list" where
  "normalize_blank_loop normalized [] = normalized"
| "normalize_blank_loop normalized (line # rest) =
     (if line = '''' \<and> normalized \<noteq> [] \<and> last normalized = ''''
      then normalize_blank_loop normalized rest
      else normalize_blank_loop (normalized @ [line]) rest)"

definition collect_text_lines ::
  "'c float_ops \<Rightarrow> 'c page_layout list \<Rightarrow> 'c ExtractionConfig \<Rightarrow> string list" where
  \<comment> \<open>the second argument stands for \<open>extract_pages(pdf_path)\<close>\<close>
  "collect_text_lines ops layouts config =
     (let st = page_loop ops config
                 \<lparr>pages = [], header_counts = Map.empty, footer_counts = Map.empty,
                  total_pages = 0\<rparr> layouts;
          min_rep = (if min_repeating config \<le> 0 then max 2 (int (total_pages st) div 3)
                     else min_repeating config);
          output_lines = output_loop (keep_entry config (header_counts st) (footer_counts st) min_rep)
                           [] (pages st);
          normalized = normalize_blank_loop [] output_lines
      in if normalized \<noteq> [] \<and> last normalized \<noteq> '''' then normalized @ [''''] else normalized)"

section \<open>Predicates used in the statements\<close>



definition demote_fence_marker :: "string \<Rightarrow> bool" where
  \<comment> \<open>the fence test of \<open>demote_headings\<close>\<close>
  "demote_fence_marker line =
     (let stripped = strip line in startswith stripped ''```'' \<or> startswith stripped ''~~~'')"

definition inside_fence :: "string list \<Rightarrow> nat \<Rightarrow> bool" where
  \<comment> \<open>line \<open>i\<close> comes after an odd number of fence markers: it lies in a code block that is
      open when the line is read\<close>
  "inside_fence lines i = odd (length (filter demote_fence_marker (take i lines)))"

definition tagged_lines ::
  "'c float_ops \<Rightarrow> 'c ExtractionConfig \<Rightarrow> 'c page_layout \<Rightarrow> (string \<times> region) list" where
  \<comment> \<open>the non-empty stripped texts of a page with their region tags, in reading order\<close>
  "tagged_lines ops config page =
     map (\<lambda>line. (strip (get_text line),
                   classify ops config (case height page of None \<Rightarrow> f792 ops | Some h \<Rightarrow> h) line))
       (filter (\<lambda>line. strip (get_text line) \<noteq> []) (text_lines page))"

definition all_tagged ::
  "'c float_ops \<Rightarrow> 'c ExtractionConfig \<Rightarrow> 'c page_layout list \<Rightarrow> (string \<times> region) list" where
  \<comment> \<open>the tagged lines of the whole extraction, page after page\<close>
  "all_tagged ops config layouts = concat (map (tagged_lines ops config) layouts)"

definition count_in :: "(string \<times> region) list \<Rightarrow> region \<Rightarrow> string \<Rightarrow> nat" where
  "count_in entries r text = length (filter (\<lambda>e. e = (text, r)) entries)"

definition region_count ::
  "'c float_ops \<Rightarrow> 'c ExtractionConfig \<Rightarrow> 'c page_layout list \<Rightarrow> region \<Rightarrow> string \<Rightarrow> nat" where
  \<comment> \<open>how often a text occurs with a region tag in the whole extraction\<close>
  "region_count ops config layouts r text = count_in (all_tagged ops config layouts) r text"

definition threshold :: "'c ExtractionConfig \<Rightarrow> 'c page_layout list \<Rightarrow> int" where
  \<comment> \<open>the configured threshold, or \<open>max(2, page_count // 3)\<close> when none is configured\<close>
  "threshold config layouts =
     (if min_repeating config \<le> 0 then max 2 (int (length layouts) div 3)
      else min_repeating config)"

definition retained ::
  "'c float_ops \<Rightarrow> 'c ExtractionConfig \<Rightarrow> 'c page_layout list \<Rightarrow> string \<times> region \<Rightarrow> bool" where
  \<comment> \<open>the tagged line is neither a header or footer text that repeats often enough in its
      region, nor a text that a skip pattern matches\<close>
  "retained ops config layouts entry =
     (case entry of (text, r) \<Rightarrow>
        \<not> (r = Header \<and> threshold config layouts \<le> int (region_count ops config layouts Header text)) \<and>
        \<not> (r = Footer \<and> threshold config layouts \<le> int (region_count ops config layouts Footer text)) \<and>
        \<not> should_skip_text text (skip_patterns config))"

definition occurs_tagged ::
  "'c float_ops \<Rightarrow> 'c ExtractionConfig \<Rightarrow> 'c page_layout list \<Rightarrow> string \<Rightarrow> region \<Rightarrow> bool" where
  \<comment> \<open>the text occurs with the region tag on some page\<close>
  "occurs_tagged ops config layouts text r = ((text, r) \<in> set (all_tagged ops config layouts))"

definition opt_count :: "nat \<Rightarrow> nat option" where
  \<comment> \<open>what a \<open>Counter\<close> holds for a key that was counted \<open>n\<close> times\<close>
  "opt_count n = (if n = 0 then None else Some n)"

definition collect_inv :: "collect_state \<Rightarrow> bool" where
  \<comment> \<open>the two counters hold the occurrence counts of the pages read so far\<close>
  "collect_inv st =
     (header_counts st = (\<lambda>t. opt_count (count_in (concat (pages st)) Header t)) \<and>
      footer_counts st = (\<lambda>t. opt_count (count_in (concat (pages st)) Footer t)))"

text \<open>
  Test data. The coordinates of the test pages are small whole numbers, on which the float
  subtraction and comparison are exact, so the operations are taken over the real numbers.
\<close>

definition exact_ops :: "real float_ops" where
  "exact_ops = \<lparr>fsub = (\<lambda>a b. a - b), fle = (\<lambda>a b. a \<le> b), f792 = 792\<rparr>"

definition footer_page :: "string \<Rightarrow> real page_layout" where
  \<comment> \<open>a page with one body line and the footer line \<open>Chapter Footer\<close>\<close>
  "footer_page body =
     \<lparr>height = Some 792,
      text_lines = [\<lparr>get_text = body, y1 = 412, y0 = 400\<rparr>,
                    \<lparr>get_text = ''Chapter Footer'', y1 = 30, y0 = 20\<rparr>]\<rparr>"

definition plain_page :: "string \<Rightarrow> real page_layout" where
  \<comment> \<open>a page with one body line only\<close>
  "plain_page body =
     \<lparr>height = Some 792, text_lines = [\<lparr>get_text = body, y1 = 412, y0 = 400\<rparr>]\<rparr>"

definition default_config :: "real ExtractionConfig" where
  \<comment> \<open>the command line defaults: margins of 36 points, no threshold given, the default skip
      patterns\<close>
  "default_config =
     \<lparr>margin_top = 36, margin_bottom = 36, min_repeating = 0,
      skip_patterns = DEFAULT_SKIP_PATTERNS\<rparr>"

definition ten_pages :: "real page_layout list" where
  \<comment> \<open>an extraction of ten pages, each with a body line of its own, eight of them with the
      footer line\<close>
  "ten_pages =
     map footer_page [''Body one'', ''Body two'', ''Body three'', ''Body four'', ''Body five'',
                      ''Body six'', ''Body seven'', ''Body eight''] @
     map plain_page [''Body nine'', ''Body ten'']"

definition candidate_ends :: "string \<Rightarrow> bool" where
  \<comment> \<open>the text after an ISBN does not prolong it: the run of digits, \<open>X\<close>, \<open>x\<close>, whitespace and
      hyphens at the start of the text holds whitespace and hyphens only\<close>
  "candidate_ends post = list_all (\<lambda>c. \<not> is_isbn_char c) (takeWhile is_isbn_body_char post)"

definition wf_key :: "string \<Rightarrow> bool" where
  \<comment> \<open>a key as \<open>parse_front_matter_block\<close> produces it: not empty, without surrounding
      whitespace, without a colon, and starting neither a comment nor a list item\<close>
  "wf_key k =
     (k \<noteq> [] \<and> strip k = k \<and> CHR '':'' \<notin> set k \<and> \<not> startswith k ''#'' \<and> \<not> startswith k ''- '')"

fun wf_value :: "fm_value \<Rightarrow> bool" where
  \<comment> \<open>a scalar without a double quote; a list whose items are written without quotes\<close>
  "wf_value (Scalar s) = (dquote \<notin> set s)"
| "wf_value (Items xs) = list_all (\<lambda>item. \<not> needs_quotes item) xs"

definition wf_front_matter :: "metadata \<Rightarrow> string list \<Rightarrow> bool" where
  "wf_front_matter md order =
     (list_all wf_key order \<and> list_all (\<lambda>(k, v). wf_key k \<and> wf_value v) md)"

fun emitted_keys :: "string list \<Rightarrow> string list \<Rightarrow> string list" where
  \<comment> \<open>the keys that the loop of \<open>serialize_front_matter\<close> writes, in the order of writing\<close>
  "emitted_keys seen [] = []"
| "emitted_keys seen (key # keys) =
     (if key \<in> set seen then emitted_keys seen keys else key # emitted_keys (key # seen) keys)"

definition written_keys :: "metadata \<Rightarrow> string list \<Rightarrow> string list" where
  "written_keys md order = emitted_keys [] (order @ filter (\<lambda>k. k \<notin> set order) (map fst md))"

definition reparsed_value :: "metadata \<Rightarrow> string \<Rightarrow> fm_value" where
  \<comment> \<open>the value read back for a written key; a key of \<open>order\<close> that the metadata lacks is
      written as the empty scalar\<close>
  "reparsed_value md k = (case dict_get md k of None \<Rightarrow> Scalar [] | Some v \<Rightarrow> v)"

definition written_quoted :: "metadata \<Rightarrow> string set \<Rightarrow> string \<Rightarrow> bool" where
  \<comment> \<open>the scalar of the key is written in double quotes\<close>
  "written_quoted md quoted k =
     (case dict_get md k of
        None \<Rightarrow> True
      | Some (Scalar s) \<Rightarrow> k \<in> quoted \<or> needs_quotes s
      | Some (Items xs) \<Rightarrow> False)"

section \<open>Paragraph reflow\<close>

lemma strip_Nil: "strip [] = []"
  by (simp add: strip_def lstrip_def rstrip_def)

lemma combine_loop_append:
  "combine_loop acc (xs @ ys) = combine_loop (combine_loop acc xs) ys"
  by (induction xs arbitrary: acc) (simp_all add: Let_def)



text \<open>
  C8, as amended. The accumulated text of \<open>combine_paragraph_lines\<close> after one more fragment:
  a blank fragment is skipped and the first fragment is taken as it is; when the accumulated
  text ends with one hyphen (and not with two), that hyphen is removed and the fragment
  follows with no space; in every other case the fragment follows after exactly one space.
\<close>

theorem combine_paragraph_lines_snoc:
  "combine_paragraph_lines (parts @ [part]) =
     (let combined = combine_paragraph_lines parts; chunk = strip part in
      if chunk = [] then combined
      else if combined = [] then chunk
      else if endswith combined ''-'' \<and> \<not> endswith combined ''--'' then butlast combined @ chunk
      else combined @ '' '' @ chunk)"
  by (simp add: combine_paragraph_lines_def combine_loop_append Let_def)

theorem combine_paragraph_lines_snoc_witness:
  "combine_paragraph_lines ([''well-''] @ [''known'']) = ''wellknown'' \<and>
   combine_paragraph_lines ([''The cat sat''] @ [''on the mat.'']) = ''The cat sat on the mat.''"
proof -
  have a: "combine_paragraph_lines [''well-''] = ''well-''" by code_simp
  have b: "strip ''known'' = ''known''" by code_simp
  have c: "combine_paragraph_lines [''The cat sat''] = ''The cat sat''" by code_simp
  have d: "strip ''on the mat.'' = ''on the mat.''" by code_simp
  show ?thesis
    using combine_paragraph_lines_snoc [of "[''well-'']" "''known''"]
      combine_paragraph_lines_snoc [of "[''The cat sat'']" "''on the mat.''"]
    by (simp add: a b c d endswith_def)
qed

text \<open>
  C8, as the claim states it, fails: the accumulated text \<open>a--\<close> ends with a hyphen, and the
  next fragment is joined to it with a space.
\<close>

theorem combine_double_hyphen_counterexample:
  "endswith ''a--'' ''-'' \<and> combine_paragraph_lines [''a--'', ''b''] = ''a-- b''"
  by code_simp

















text \<open>
  The two blank lines do not reach the output of the clean-up: \<open>normalise_text\<close> runs
  \<open>collapse_blank_lines\<close> after \<open>unwrap_paragraphs\<close>.
\<close>

lemma normalise_text_one_blank_line:
  "normalise_text ''a\<newline>\<newline>b'' = ''a\<newline>\<newline>b\<newline>''"
  by code_simp

section \<open>Fenced code in the PDF clean-up\<close>

text \<open>
  C3. The module promises to keep the content of fenced code blocks, but \<open>collapse_blank_lines\<close>
  does not track fences: of two blank lines between a fence-open and its fence-close marker
  one is removed. \<open>normalise_text\<close>, the whole pass, returns the text with that line missing.
\<close>

theorem normalise_text_changes_fenced_lines:
  "collapse_blank_lines [''```'', ''a'', '''', '''', ''b'', ''```''] =
     [''```'', ''a'', '''', ''b'', ''```''] \<and>
   normalise_text ''```\<newline>a\<newline>\<newline>\<newline>b\<newline>```\<newline>'' =
     ''```\<newline>a\<newline>\<newline>b\<newline>```\<newline>''"
  by code_simp

section \<open>Heading demotion and the table of contents\<close>

lemma demote_loop_append:
  "demote_loop st (xs @ ys) = demote_loop (demote_loop st xs) ys"
  by (induction xs arbitrary: st) simp_all

lemma demote_step_in_code:
  "d_in_code_block (demote_step st l) = (d_in_code_block st \<noteq> demote_fence_marker l)"
  by (auto simp: demote_step_def demote_fence_marker_def Let_def split: option.splits prod.splits)

lemma demote_loop_in_code:
  "d_in_code_block (demote_loop st xs) =
     (d_in_code_block st \<noteq> odd (length (filter demote_fence_marker xs)))"
  by (induction xs arbitrary: st) (auto simp: demote_step_in_code)

lemma demote_step_new_lines:
  "\<exists>out. new_lines (demote_step st l) = new_lines st @ [out] \<and>
     (demote_fence_marker l \<or> d_in_code_block st \<or> HEADING_PATTERN_match l = None \<longrightarrow> out = l)"
  by (auto simp: demote_step_def demote_fence_marker_def Let_def split: option.splits prod.splits)

lemma demote_loop_new_lines:
  "\<exists>outs. new_lines (demote_loop st xs) = new_lines st @ outs \<and> length outs = length xs"
proof (induction xs arbitrary: st)
  case Nil
  then show ?case by simp
next
  case (Cons x xs)
  obtain out where o: "new_lines (demote_step st x) = new_lines st @ [out]"
    using demote_step_new_lines by blast
  obtain outs where "new_lines (demote_loop (demote_step st x) xs) = new_lines (demote_step st x) @ outs"
    "length outs = length xs" using Cons.IH by blast
  with o show ?case by simp
qed

lemma demote_loop_nth:
  assumes i: "i < length xs" and st: "new_lines st = []" "\<not> d_in_code_block st"
    and c: "demote_fence_marker (xs ! i) \<or> inside_fence xs i \<or> HEADING_PATTERN_match (xs ! i) = None"
  shows "new_lines (demote_loop st xs) ! i = xs ! i"
proof -
  define st1 where "st1 = demote_loop st (take i xs)"
  have split: "xs = take i xs @ xs ! i # drop (Suc i) xs"
    using i by (simp add: id_take_nth_drop)
  obtain o1 where o1: "new_lines st1 = o1" "length o1 = i"
    using demote_loop_new_lines[of st "take i xs"] st i by (auto simp: st1_def)
  have code: "d_in_code_block st1 = inside_fence xs i"
    by (simp add: st1_def demote_loop_in_code st inside_fence_def)
  obtain out where out: "new_lines (demote_step st1 (xs ! i)) = new_lines st1 @ [out]"
    "demote_fence_marker (xs ! i) \<or> d_in_code_block st1 \<or> HEADING_PATTERN_match (xs ! i) = None \<longrightarrow> out = xs ! i"
    using demote_step_new_lines by blast
  with c code have outeq: "out = xs ! i" by blast
  obtain outs where outs: "new_lines (demote_loop (demote_step st1 (xs ! i)) (drop (Suc i) xs)) =
      new_lines (demote_step st1 (xs ! i)) @ outs"
    using demote_loop_new_lines by blast
  have "demote_loop st xs = demote_loop (demote_step st1 (xs ! i)) (drop (Suc i) xs)"
    by (subst split) (simp add: demote_loop_append st1_def)
  then have "new_lines (demote_loop st xs) = o1 @ [xs ! i] @ outs"
    using outs out(1) o1 outeq by simp
  then show ?thesis using o1(2) by (simp add: nth_append)
qed

text \<open>
  C10. \<open>demote_headings\<close> returns as many lines as it is given, one for each input line, and a
  line that is a fence marker, lies inside an open code block, or is no heading line comes back
  unchanged: only heading lines outside code blocks are rewritten.
\<close>

theorem demote_headings_frame:
  "length (fst (demote_headings lines)) = length lines \<and>
   (\<forall>i<length lines.
      demote_fence_marker (lines ! i) \<or> inside_fence lines i \<or> HEADING_PATTERN_match (lines ! i) = None
      \<longrightarrow> fst (demote_headings lines) ! i = lines ! i)"
proof -
  let ?st = "\<lparr>d_in_code_block = False, new_lines = [], toc_entries = [],
              first_heading_text = None, slug_counts = Map.empty\<rparr>"
  have "length (new_lines (demote_loop ?st lines)) = length lines"
    using demote_loop_new_lines[of ?st lines] by auto
  moreover have "\<forall>i<length lines.
      demote_fence_marker (lines ! i) \<or> inside_fence lines i \<or> HEADING_PATTERN_match (lines ! i) = None
      \<longrightarrow> new_lines (demote_loop ?st lines) ! i = lines ! i"
    using demote_loop_nth[of _ lines ?st] by simp
  ultimately show ?thesis by (simp add: demote_headings_def Let_def)
qed

theorem demote_headings_frame_witness:
  "inside_fence [''# One'', ''```'', ''# in code'', ''```'', ''text''] 2 \<and>
   HEADING_PATTERN_match ''# in code'' = Some (1, ''in code'') \<and>
   length (fst (demote_headings [''# One'', ''```'', ''# in code'', ''```'', ''text''])) = 5 \<and>
   fst (demote_headings [''# One'', ''```'', ''# in code'', ''```'', ''text'']) ! 2 = ''# in code''"
proof -
  let ?ls = "[''# One'', ''```'', ''# in code'', ''```'', ''text'']"
  have b: "inside_fence ?ls 2" by code_simp
  have h: "HEADING_PATTERN_match ''# in code'' = Some (1, ''in code'')" by code_simp
  have i: "2 < length ?ls" by simp
  have l: "length (fst (demote_headings ?ls)) = 5"
    using demote_headings_frame [of ?ls] by simp
  have "fst (demote_headings ?ls) ! 2 = ?ls ! 2"
    using demote_headings_frame [of ?ls] b i by blast
  then show ?thesis using b h l by simp
qed

text \<open>
  C1. The slugs of one document are not always distinct: the counter of \<open>demote_headings\<close>
  gives the second heading \<open>Notes\<close> the slug \<open>notes-1\<close>, which is also the base slug of the
  heading \<open>Notes 1\<close>, whose own counter is still zero.
\<close>

theorem demote_headings_duplicate_slug:
  "demote_headings [''# Notes'', ''# Notes'', ''# Notes 1''] =
     ([''## Notes {#notes}'', ''## Notes {#notes-1}'', ''## Notes 1 {#notes-1}''],
      [(''Notes'', ''notes''), (''Notes'', ''notes-1''), (''Notes 1'', ''notes-1'')],
      Some ''Notes'') \<and>
   \<not> distinct (map snd (fst (snd (demote_headings [''# Notes'', ''# Notes'', ''# Notes 1'']))))"
  by code_simp






section \<open>Front-matter detection\<close>

lemma scan_front_matter_unterminated:
  "\<forall>l\<in>set ls. strip l \<noteq> ''---'' \<Longrightarrow> scan_front_matter ls = (ls, [])"
  by (induction ls) simp_all

text \<open>
  The two cases of the split. Without a leading \<open>---\<close> line it yields no front-matter lines,
  no metadata, and the whole input as body. With a leading \<open>---\<close> line and no closing one
  among the lines after it, the \<open>else\<close> branch of the loop sets \<open>body_start\<close> to the number of
  lines: every line of the input is taken into the front-matter lines and the body is empty.
\<close>

lemma split_front_matter_cases:
  "((lines = [] \<or> strip (hd lines) \<noteq> ''---'') \<longrightarrow>
      split_front_matter lines =
        \<lparr>front_matter_lines = [], body_lines = lines, parsed_metadata = None\<rparr>) \<and>
   (strip first = ''---'' \<and> rest \<noteq> [] \<and> (\<forall>l\<in>set rest. strip l \<noteq> ''---'') \<longrightarrow>
      split_front_matter (first # rest) =
        \<lparr>front_matter_lines = first # rest, body_lines = [], parsed_metadata = None\<rparr>)"
proof -
  have "split_front_matter (first # rest) =
        \<lparr>front_matter_lines = first # rest, body_lines = [], parsed_metadata = None\<rparr>"
    if a: "strip first = ''---''" "rest \<noteq> []" "\<forall>l\<in>set rest. strip l \<noteq> ''---''"
  proof -
    have "last (first # rest) \<in> set rest" using a(2) by simp
    then have "strip (last (first # rest)) \<noteq> ''---''" using a(3) by blast
    then have "parse_front_matter_block (first # rest) = None"
      unfolding parse_front_matter_block_def by simp
    then show ?thesis
      using a(1) scan_front_matter_unterminated[OF a(3)]
      by (simp add: split_front_matter_def)
  qed
  then show ?thesis by (auto simp: split_front_matter_def)
qed

text \<open>
  C4. An unterminated front-matter block is not treated as absent. For the document with the
  lines \<open>---\<close>, \<open># Title\<close>, \<open>text\<close> and \<open>more\<close> the split takes all four lines into the
  front-matter lines and parses no metadata from them, and no line is left for the body.
\<close>

theorem split_front_matter_unterminated:
  "split_front_matter [''---'', ''# Title'', ''text'', ''more''] =
     \<lparr>front_matter_lines = [''---'', ''# Title'', ''text'', ''more''], body_lines = [],
      parsed_metadata = None\<rparr>"
  by code_simp


section \<open>ISBN extraction\<close>

lemma upper_char_digit: "is_digit c \<Longrightarrow> upper_char c = c"
  by (auto simp: is_digit_def upper_char_def Let_def)

lemma upper_digits: "list_all is_digit s \<Longrightarrow> upper s = s"
  by (induction s) (simp_all add: upper_def upper_char_digit)

lemma upper_char_X: "upper_char CHR ''X'' = CHR ''X''" "upper_char CHR ''x'' = CHR ''X''"
  by code_simp+

lemma isdigit_cleaned:
  "py_isdigit (filter is_isbn_char raw) =
     (filter is_isbn_char raw \<noteq> [] \<and> list_all is_digit (filter is_isbn_char raw))"
proof -
  have "list_all py_isdigit_char (filter is_isbn_char raw) = list_all is_digit (filter is_isbn_char raw)"
    by (induction raw) (auto simp: py_isdigit_char_def is_isbn_char_def)
  then show ?thesis by (simp add: py_isdigit_def)
qed

lemma upper_ten:
  assumes "length s = 10" "list_all is_digit (take 9 s)" "is_isbn_char (s ! 9)"
  shows "upper s = take 9 s @ [if is_digit (s ! 9) then s ! 9 else CHR ''X'']"
proof -
  have "9 < length s" using assms(1) by simp
  from take_Suc_conv_app_nth [OF this] have t: "take (Suc 9) s = take 9 s @ [s ! 9]" .
  have "Suc 9 = length s" using assms(1) by simp
  with t have "take (length s) s = take 9 s @ [s ! 9]" by (simp only:)
  then have s: "s = take 9 s @ [s ! 9]" by simp
  have "upper s = upper (take 9 s) @ [upper_char (s ! 9)]"
    by (subst s) (simp add: upper_def)
  then show ?thesis
    using assms(2,3) by (auto simp: upper_digits upper_char_digit is_isbn_char_def upper_char_X)
qed

lemma lower_ISBN:
  "lower_char CHR ''I'' = CHR ''i''" "lower_char CHR ''S'' = CHR ''s''"
  "lower_char CHR ''B'' = CHR ''b''" "lower_char CHR ''N'' = CHR ''n''"
  by code_simp+

lemma keyword_straddle:
  assumes "lower (take 4 (c # cs)) \<noteq> ''isbn''"
  shows "lower (take 4 (c # cs @ ''ISBN: 978-0-13-468599-1'' @ post)) \<noteq> ''isbn''"
proof (cases cs)
  case Nil
  then show ?thesis by (simp add: lower_def lower_ISBN)
next
  case (Cons d ds)
  note c1 = this
  show ?thesis
  proof (cases ds)
    case Nil
    then show ?thesis using c1 by (simp add: lower_def lower_ISBN)
  next
    case (Cons e es)
    note c2 = this
    show ?thesis
    proof (cases es)
      case Nil
      then show ?thesis using c1 c2 by (simp add: lower_def lower_ISBN)
    next
      case (Cons f fs)
      then show ?thesis using c1 c2 assms by (simp add: lower_def)
    qed
  qed
qed

lemma takeWhile_stop: "\<not> P y \<Longrightarrow> takeWhile P (xs @ y # ys) = takeWhile P xs"
  by (induction xs) simp_all

lemma startswith_length: "startswith x p \<Longrightarrow> length p \<le> length x"
proof -
  assume "startswith x p"
  then have "length (take (length p) x) = length p" by (simp add: startswith_def)
  then show ?thesis by simp
qed

lemma startswith_stop:
  assumes "y \<notin> set p"
  shows "startswith (xs @ y # ys) p = startswith xs p"
proof (cases "length p \<le> length xs")
  case True
  then show ?thesis by (simp add: startswith_def)
next
  case False
  then have l: "length xs < length p" by simp
  have 1: "\<not> startswith xs p" using l startswith_length by fastforce
  have "take (length p) (xs @ y # ys) = xs @ y # take (length p - Suc (length xs)) ys"
    using l by (simp add: take_Cons')
  then have "y \<in> set (take (length p) (xs @ y # ys))" by simp
  then have "take (length p) (xs @ y # ys) \<noteq> p" using assms by metis
  then show ?thesis using 1 by (simp add: startswith_def)
qed

lemma match_at_length:
  assumes "ISBN_PATTERN_match_at prev s = Some (g, n)"
  shows "n \<le> length s"
proof -
  define r1 where "r1 = drop 4 s"
  define n1 :: nat where "n1 = (if startswith r1 ''-10'' \<or> startswith r1 ''-13'' then 3 else 0)"
  define r2 where "r2 = drop n1 r1"
  define n2 :: nat where "n2 = (if startswith r2 '':'' then 1 else 0)"
  define r3 where "r3 = drop n2 r2"
  define n3 where "n3 = length (takeWhile py_isspace r3)"
  define r4 where "r4 = drop n3 r3"
  have kw: "lower (take 4 s) = ''isbn''"
    using assms by (auto simp: ISBN_PATTERN_match_at_def split: if_splits)
  then have "length (lower (take 4 s)) = 4" by simp
  then have l4: "4 \<le> length s" by (simp add: lower_def)
  have l1: "n1 \<le> length r1"
    using startswith_length[of r1 "''-10''"] startswith_length[of r1 "''-13''"]
    by (auto simp: n1_def)
  have l2: "n2 \<le> length r2" using startswith_length[of r2 "'':''"] by (auto simp: n2_def)
  have l3: "n3 \<le> length r3" by (simp add: n3_def length_takeWhile_le)
  have len: "length s = 4 + n1 + n2 + n3 + length r4"
    using l4 l1 l2 l3 by (simp add: r4_def r3_def r2_def r1_def)
  from assms obtain d r5 where r4: "r4 = d # r5"
    and n: "n = 4 + n1 + n2 + n3 + 1 +
         length (rev (dropWhile (\<lambda>c. \<not> is_isbn_char c) (rev (takeWhile is_isbn_body_char r5))))"
    unfolding ISBN_PATTERN_match_at_def Let_def r4_def r3_def n3_def n2_def r2_def n1_def r1_def
    by (auto split: if_splits list.splits)
  have "length (rev (dropWhile (\<lambda>c. \<not> is_isbn_char c) (rev (takeWhile is_isbn_body_char r5))))
          \<le> length (takeWhile is_isbn_body_char r5)"
    using length_dropWhile_le[of "\<lambda>c. \<not> is_isbn_char c" "rev (takeWhile is_isbn_body_char r5)"]
    by simp
  also have "\<dots> \<le> length r5" by (rule length_takeWhile_le)
  finally show ?thesis using n len r4 by simp
qed


lemma match_at_context:
  assumes ne: "s \<noteq> []"
  shows "ISBN_PATTERN_match_at prev (s @ ''ISBN: 978-0-13-468599-1'' @ post) =
         ISBN_PATTERN_match_at prev s"
proof (cases "lower (take 4 s) = ''isbn''")
  case False
  from ne obtain c cs where s: "s = c # cs" by (cases s) auto
  have "lower (take 4 (s @ ''ISBN: 978-0-13-468599-1'' @ post)) \<noteq> ''isbn''"
    using keyword_straddle[of c cs post] False unfolding s by simp
  then show ?thesis using False by (simp add: ISBN_PATTERN_match_at_def)
next
  case True
  define T where "T = ''SBN: 978-0-13-468599-1'' @ post"
  have ctx: "''ISBN: 978-0-13-468599-1'' @ post = CHR ''I'' # T" by (simp add: T_def)
  have I: "\<not> py_isspace CHR ''I''" "\<not> is_isbn_body_char CHR ''I''" "\<not> is_digit CHR ''I''"
    by code_simp+
  define r1 where "r1 = drop 4 s"
  define n1 :: nat where "n1 = (if startswith r1 ''-10'' \<or> startswith r1 ''-13'' then 3 else 0)"
  define r2 where "r2 = drop n1 r1"
  define n2 :: nat where "n2 = (if startswith r2 '':'' then 1 else 0)"
  define r3 where "r3 = drop n2 r2"
  define n3 where "n3 = length (takeWhile py_isspace r3)"
  define r4 where "r4 = drop n3 r3"
  from True have "length (lower (take 4 s)) = 4" by simp
  then have l4: "4 \<le> length s" by (simp add: lower_def)
  have l1: "n1 \<le> length r1"
    using startswith_length[of r1 "''-10''"] startswith_length[of r1 "''-13''"]
    by (auto simp: n1_def)
  have l2: "n2 \<le> length r2" using startswith_length[of r2 "'':''"] by (auto simp: n2_def)
  have l3: "n3 \<le> length r3" by (simp add: n3_def length_takeWhile_le)
  have k: "take 4 (s @ CHR ''I'' # T) = take 4 s" using l4 by simp
  have d1: "drop 4 (s @ CHR ''I'' # T) = r1 @ CHR ''I'' # T" using l4 by (simp add: r1_def)
  have s1: "startswith (r1 @ CHR ''I'' # T) ''-10'' = startswith r1 ''-10''"
           "startswith (r1 @ CHR ''I'' # T) ''-13'' = startswith r1 ''-13''"
    by (rule startswith_stop, simp)+
  have d2: "drop n1 (r1 @ CHR ''I'' # T) = r2 @ CHR ''I'' # T" using l1 by (simp add: r2_def)
  have s2: "startswith (r2 @ CHR ''I'' # T) '':'' = startswith r2 '':''"
    by (rule startswith_stop) simp
  have d3: "drop n2 (r2 @ CHR ''I'' # T) = r3 @ CHR ''I'' # T" using l2 by (simp add: r3_def)
  have t3: "takeWhile py_isspace (r3 @ CHR ''I'' # T) = takeWhile py_isspace r3"
    using I(1) by (rule takeWhile_stop)
  have d4: "drop n3 (r3 @ CHR ''I'' # T) = r4 @ CHR ''I'' # T" using l3 by (simp add: r4_def)
  have A: "ISBN_PATTERN_match_at prev s =
     (if (case prev of None \<Rightarrow> False | Some p \<Rightarrow> is_word_char p) then None
      else case r4 of
             [] \<Rightarrow> None
           | d # r5 \<Rightarrow>
               if \<not> is_digit d then None
               else (let run = takeWhile is_isbn_body_char r5;
                         body = rev (dropWhile (\<lambda>c. \<not> is_isbn_char c) (rev run))
                     in if length body < 9 then None
                        else Some (d # body, 4 + n1 + n2 + n3 + 1 + length body)))"
    unfolding ISBN_PATTERN_match_at_def Let_def r4_def n3_def r3_def n2_def r2_def n1_def r1_def
    using True by simp
  have B: "ISBN_PATTERN_match_at prev (s @ CHR ''I'' # T) =
     (if (case prev of None \<Rightarrow> False | Some p \<Rightarrow> is_word_char p) then None
      else case r4 @ CHR ''I'' # T of
             [] \<Rightarrow> None
           | d # r5 \<Rightarrow>
               if \<not> is_digit d then None
               else (let run = takeWhile is_isbn_body_char r5;
                         body = rev (dropWhile (\<lambda>c. \<not> is_isbn_char c) (rev run))
                     in if length body < 9 then None
                        else Some (d # body, 4 + n1 + n2 + n3 + 1 + length body)))"
  proof -
    have "ISBN_PATTERN_match_at prev (s @ CHR ''I'' # T) =
     (if (case prev of None \<Rightarrow> False | Some p \<Rightarrow> is_word_char p) then None
      else case drop (length (takeWhile py_isspace
                  (drop (if startswith (drop (if startswith (drop 4 (s @ CHR ''I'' # T)) ''-10'' \<or>
                                               startswith (drop 4 (s @ CHR ''I'' # T)) ''-13'' then 3 else 0)
                                        (drop 4 (s @ CHR ''I'' # T))) '':'' then 1 else 0)
                     (drop (if startswith (drop 4 (s @ CHR ''I'' # T)) ''-10'' \<or>
                               startswith (drop 4 (s @ CHR ''I'' # T)) ''-13'' then 3 else 0)
                        (drop 4 (s @ CHR ''I'' # T))))))
                 (drop (if startswith (drop (if startswith (drop 4 (s @ CHR ''I'' # T)) ''-10'' \<or>
                                               startswith (drop 4 (s @ CHR ''I'' # T)) ''-13'' then 3 else 0)
                                        (drop 4 (s @ CHR ''I'' # T))) '':'' then 1 else 0)
                     (drop (if startswith (drop 4 (s @ CHR ''I'' # T)) ''-10'' \<or>
                               startswith (drop 4 (s @ CHR ''I'' # T)) ''-13'' then 3 else 0)
                        (drop 4 (s @ CHR ''I'' # T)))) of
             [] \<Rightarrow> None
           | d # r5 \<Rightarrow>
               if \<not> is_digit d then None
               else (let run = takeWhile is_isbn_body_char r5;
                         body = rev (dropWhile (\<lambda>c. \<not> is_isbn_char c) (rev run))
                     in if length body < 9 then None
                        else Some (d # body,
                          4 + (if startswith (drop 4 (s @ CHR ''I'' # T)) ''-10'' \<or>
                               startswith (drop 4 (s @ CHR ''I'' # T)) ''-13'' then 3 else 0) +
                          (if startswith (drop (if startswith (drop 4 (s @ CHR ''I'' # T)) ''-10'' \<or>
                                               startswith (drop 4 (s @ CHR ''I'' # T)) ''-13'' then 3 else 0)
                                        (drop 4 (s @ CHR ''I'' # T))) '':'' then 1 else 0) +
                          length (takeWhile py_isspace
                  (drop (if startswith (drop (if startswith (drop 4 (s @ CHR ''I'' # T)) ''-10'' \<or>
                                               startswith (drop 4 (s @ CHR ''I'' # T)) ''-13'' then 3 else 0)
                                        (drop 4 (s @ CHR ''I'' # T))) '':'' then 1 else 0)
                     (drop (if startswith (drop 4 (s @ CHR ''I'' # T)) ''-10'' \<or>
                               startswith (drop 4 (s @ CHR ''I'' # T)) ''-13'' then 3 else 0)
                        (drop 4 (s @ CHR ''I'' # T))))) + 1 + length body)))"
      unfolding ISBN_PATTERN_match_at_def Let_def k using True by (simp only: if_False if_True simp_thms)
    then show ?thesis
      unfolding d1 s1 n1_def[symmetric] d2 s2 n2_def[symmetric] d3 t3 n3_def[symmetric] d4 .
  qed
  show ?thesis
  proof (cases r4)
    case Nil
    then show ?thesis unfolding ctx A B using I(3) by simp
  next
    case (Cons d r5)
    have "takeWhile is_isbn_body_char (r5 @ CHR ''I'' # T) = takeWhile is_isbn_body_char r5"
      using I(2) by (rule takeWhile_stop)
    then show ?thesis unfolding ctx A B Cons by simp
  qed
qed


lemma finditer_append:
  assumes ctx: "\<And>prev s. s \<noteq> [] \<Longrightarrow>
      ISBN_PATTERN_match_at prev (s @ T) = ISBN_PATTERN_match_at prev s"
  shows "k \<le> length s \<Longrightarrow>
     ISBN_PATTERN_finditer prev k (s @ T) =
     ISBN_PATTERN_finditer prev k s @
     ISBN_PATTERN_finditer (if s = [] then prev else Some (last s)) 0 T"
proof (induction s arbitrary: prev k)
  case Nil
  then show ?case by simp
next
  case (Cons c cs)
  have m: "ISBN_PATTERN_match_at prev (c # cs @ T) = ISBN_PATTERN_match_at prev (c # cs)"
    using ctx[of "c # cs" prev] by simp
  have l: "(if c # cs = [] then prev else Some (last (c # cs))) =
           (if cs = [] then Some c else Some (last cs))" by simp
  show ?case
  proof (cases "k > 0")
    case True
    then have "k - 1 \<le> length cs" using Cons.prems by simp
    from Cons.IH[OF this, of "Some c"] show ?thesis using True unfolding l by simp
  next
    case False
    then have k: "k = 0" by simp
    show ?thesis
    proof (cases "ISBN_PATTERN_match_at prev (c # cs)")
      case None
      from Cons.IH[of 0 "Some c"] show ?thesis using None m unfolding l k by simp
    next
      case (Some gn)
      obtain g n where gn: "gn = (g, n)" by (cases gn)
      have "n \<le> length (c # cs)" using match_at_length Some gn by blast
      then have "n - 1 \<le> length cs" by simp
      from Cons.IH[OF this, of "Some c"] show ?thesis using Some gn m unfolding l k by simp
    qed
  qed
qed

lemma first_isbn_append:
  "first_isbn (xs @ ys) = (case first_isbn xs of Some n \<Rightarrow> Some n | None \<Rightarrow> first_isbn ys)"
  by (induction xs) (simp_all split: option.splits)

lemma body_run:
  assumes "candidate_ends post"
  shows "rev (dropWhile (\<lambda>c. \<not> is_isbn_char c)
           (rev (takeWhile is_isbn_body_char (''78-0-13-468599-1'' @ post)))) = ''78-0-13-468599-1''"
proof -
  have b: "list_all is_isbn_body_char ''78-0-13-468599-1''" by code_simp
  have t: "takeWhile is_isbn_body_char (''78-0-13-468599-1'' @ post) =
        ''78-0-13-468599-1'' @ takeWhile is_isbn_body_char post"
    using b unfolding list_all_iff by (intro takeWhile_append2) blast
  have n: "\<And>x. x \<in> set (rev (takeWhile is_isbn_body_char post)) \<Longrightarrow> \<not> is_isbn_char x"
    using assms by (simp add: candidate_ends_def list_all_iff)
  have d: "dropWhile (\<lambda>c. \<not> is_isbn_char c) (rev ''78-0-13-468599-1'') = rev ''78-0-13-468599-1''"
    by code_simp
  have "dropWhile (\<lambda>c. \<not> is_isbn_char c)
           (rev (takeWhile is_isbn_body_char post) @ rev ''78-0-13-468599-1'') =
        dropWhile (\<lambda>c. \<not> is_isbn_char c) (rev ''78-0-13-468599-1'')"
    using n by (rule dropWhile_append2)
  then show ?thesis unfolding t rev_append d by simp
qed

lemma match_at_line:
  assumes p: "case prev of None \<Rightarrow> True | Some p \<Rightarrow> \<not> is_word_char p"
    and e: "candidate_ends post"
  shows "ISBN_PATTERN_match_at prev (''ISBN: 978-0-13-468599-1'' @ post) =
           Some (''978-0-13-468599-1'', 23)"
proof -
  have w: "\<not> (case prev of None \<Rightarrow> False | Some p \<Rightarrow> is_word_char p)"
    using p by (cases prev) simp_all
  have s: "py_isspace CHR '' ''" "\<not> py_isspace CHR ''9''" "is_digit CHR ''9''" by code_simp+
  show ?thesis
    unfolding ISBN_PATTERN_match_at_def
    using w body_run[OF e]
    by (simp add: lower_def lower_ISBN startswith_def s Let_def)
qed

lemma finditer_match:
  "ISBN_PATTERN_match_at prev (c # cs) = Some (g, n) \<Longrightarrow>
   ISBN_PATTERN_finditer prev 0 (c # cs) = g # ISBN_PATTERN_finditer (Some c) (n - 1) cs"
  by simp

lemma extract_isbn_line:
  assumes b: "pre = [] \<or> \<not> is_word_char (last pre)"
    and e: "candidate_ends post"
  shows "extract_isbn (pre @ ''ISBN: 978-0-13-468599-1'' @ post) fallback =
     (case extract_isbn pre [] of
        Some earlier \<Rightarrow> Some earlier
      | None \<Rightarrow> Some ''9780134685991'')"
proof -
  let ?prev = "if pre = [] then None else Some (last pre)"
  have p: "case ?prev of None \<Rightarrow> True | Some p \<Rightarrow> \<not> is_word_char p"
    using b by (cases "pre = []") simp_all
  have "ISBN_PATTERN_match_at ?prev (CHR ''I'' # ''SBN: 978-0-13-468599-1'' @ post) =
          Some (''978-0-13-468599-1'', 23)"
    using match_at_line[OF p e] by simp
  from finditer_match[OF this]
  have "ISBN_PATTERN_finditer ?prev 0 (''ISBN: 978-0-13-468599-1'' @ post) =
          ''978-0-13-468599-1'' #
          ISBN_PATTERN_finditer (Some CHR ''I'') 22 (''SBN: 978-0-13-468599-1'' @ post)"
    by simp
  moreover have "ISBN_PATTERN_finditer None 0 (pre @ ''ISBN: 978-0-13-468599-1'' @ post) =
      ISBN_PATTERN_finditer None 0 pre @
      ISBN_PATTERN_finditer ?prev 0 (''ISBN: 978-0-13-468599-1'' @ post)"
  proof (rule finditer_append)
    show "ISBN_PATTERN_match_at prev (s @ ''ISBN: 978-0-13-468599-1'' @ post) =
          ISBN_PATTERN_match_at prev s" if "s \<noteq> []" for prev s
      using that by (rule match_at_context)
    show "0 \<le> length pre" by simp
  qed
  ultimately have f: "ISBN_PATTERN_finditer None 0 (pre @ ''ISBN: 978-0-13-468599-1'' @ post) =
      ISBN_PATTERN_finditer None 0 pre @
      ''978-0-13-468599-1'' #
      ISBN_PATTERN_finditer (Some CHR ''I'') 22 (''SBN: 978-0-13-468599-1'' @ post)"
    by (simp only:)
  have n: "normalize_isbn (Some ''978-0-13-468599-1'') = Some ''9780134685991''"
    by code_simp
  have x: "extract_isbn pre [] = first_isbn (ISBN_PATTERN_finditer None 0 pre)"
    by (simp add: extract_isbn_def split: option.splits)
  show ?thesis
    unfolding x unfolding extract_isbn_def f first_isbn_append using n
    by (simp split: option.splits)
qed

text \<open>
  C6, as amended. Take a text that contains \<open>ISBN: 978-0-13-468599-1\<close>, the character before
  it being no word character and what follows it not prolonging the candidate. It yields the
  identifier \<open>9780134685991\<close>, whatever the fallback identifiers, unless the text before it
  yields an identifier of its own, which is then the result. \<open>normalize_isbn\<close> keeps the digits
  and the letters X and x of a candidate; it accepts thirteen digits as they are and nine
  digits followed by a digit or an X (an x is made upper case), and rejects everything else.
\<close>

theorem normalize_isbn_spec:
  "((pre = [] \<or> \<not> is_word_char (last pre)) \<and> candidate_ends post \<longrightarrow>
      extract_isbn (pre @ ''ISBN: 978-0-13-468599-1'' @ post) fallback =
        (case extract_isbn pre [] of
           Some earlier \<Rightarrow> Some earlier
         | None \<Rightarrow> Some ''9780134685991'')) \<and>
   normalize_isbn None = None \<and>
   normalize_isbn (Some raw) =
     (let cleaned = filter is_isbn_char raw in
      if length cleaned = 13 \<and> list_all is_digit cleaned then Some cleaned
      else if length cleaned = 10 \<and> list_all is_digit (take 9 cleaned)
      then Some (take 9 cleaned @ [if is_digit (cleaned ! 9) then cleaned ! 9 else CHR ''X''])
      else None)"
proof -
  have 1: "(pre = [] \<or> \<not> is_word_char (last pre)) \<and> candidate_ends post \<longrightarrow>
      extract_isbn (pre @ ''ISBN: 978-0-13-468599-1'' @ post) fallback =
        (case extract_isbn pre [] of
           Some earlier \<Rightarrow> Some earlier
         | None \<Rightarrow> Some ''9780134685991'')"
    using extract_isbn_line[of pre post fallback] by blast
  have 2: "normalize_isbn None = None" by (simp add: normalize_isbn_def)
  have 3: "normalize_isbn (Some raw) =
     (let cleaned = filter is_isbn_char raw in
      if length cleaned = 13 \<and> list_all is_digit cleaned then Some cleaned
      else if length cleaned = 10 \<and> list_all is_digit (take 9 cleaned)
      then Some (take 9 cleaned @ [if is_digit (cleaned ! 9) then cleaned ! 9 else CHR ''X''])
      else None)"
  proof -
    define cleaned where "cleaned = filter is_isbn_char raw"
    have last: "is_isbn_char (cleaned ! 9)" if "length cleaned = 10"
    proof -
      have "cleaned ! 9 \<in> set cleaned" using that by simp
      then show ?thesis by (simp add: cleaned_def)
    qed
    have dig: "py_isdigit cleaned = (cleaned \<noteq> [] \<and> list_all is_digit cleaned)"
      unfolding cleaned_def by (rule isdigit_cleaned)
    have "normalize_isbn (Some raw) =
      (if length cleaned = 13 \<and> list_all is_digit cleaned then Some cleaned
       else if length cleaned = 10 \<and> list_all is_digit (take 9 cleaned)
       then Some (upper cleaned) else None)"
    proof (cases "raw = []")
      case True
      then have "cleaned = []" by (simp add: cleaned_def)
      with True show ?thesis by (simp add: normalize_isbn_def)
    next
      case False
      then have "normalize_isbn (Some raw) =
        (if length cleaned = 13 \<and> py_isdigit cleaned then Some cleaned
         else if length cleaned = 10 \<and> list_all is_digit (take 9 cleaned) \<and>
                 is_isbn_char (cleaned ! 9)
         then Some (upper cleaned) else None)"
        by (simp add: normalize_isbn_def Let_def cleaned_def)
      then show ?thesis using last dig by auto
    qed
    also have "\<dots> =
      (if length cleaned = 13 \<and> list_all is_digit cleaned then Some cleaned
       else if length cleaned = 10 \<and> list_all is_digit (take 9 cleaned)
       then Some (take 9 cleaned @ [if is_digit (cleaned ! 9) then cleaned ! 9 else CHR ''X''])
       else None)"
      using last upper_ten[of cleaned] by simp
    finally show ?thesis by (simp add: Let_def cleaned_def)
  qed
  show ?thesis
    apply (rule conjI)
     apply (rule 1)
    apply (rule conjI)
     apply (rule 2)
    apply (rule 3)
    done
qed

theorem normalize_isbn_spec_witness:
  "candidate_ends ''\<newline>\<newline>Some text.'' \<and>
   extract_isbn (''# Book\<newline>\<newline>'' @ ''ISBN: 978-0-13-468599-1'' @ ''\<newline>\<newline>Some text.'') [] =
     Some ''9780134685991'' \<and>
   extract_isbn ([] @ ''ISBN: 978-0-13-468599-1'' @ []) [] = Some ''9780134685991'' \<and>
   extract_isbn (''ISBN 0-306-40615-2\<newline>'' @ ''ISBN: 978-0-13-468599-1'' @ []) [] =
     Some ''0306406152'' \<and>
   normalize_isbn (Some ''0-306-40615-x'') = Some ''030640615X'' \<and>
   normalize_isbn (Some ''978-0-13-468599-1'') = Some ''9780134685991'' \<and>
   normalize_isbn (Some ''12345'') = None"
proof -
  note ext = conjunct1 [OF normalize_isbn_spec]
  note spec = conjunct2 [OF conjunct2 [OF normalize_isbn_spec]]
  have b: "\<not> is_word_char (last ''# Book\<newline>\<newline>'')" by code_simp
  have b2: "\<not> is_word_char (last ''ISBN 0-306-40615-2\<newline>'')" by code_simp
  have e: "candidate_ends ''\<newline>\<newline>Some text.''" by code_simp
  have e0: "candidate_ends []" by (simp add: candidate_ends_def)
  have x: "extract_isbn ''# Book\<newline>\<newline>'' [] = None" by code_simp
  have x0: "extract_isbn [] [] = None" by code_simp
  have x2: "extract_isbn ''ISBN 0-306-40615-2\<newline>'' [] = Some ''0306406152''" by code_simp
  have 1: "extract_isbn (''# Book\<newline>\<newline>'' @ ''ISBN: 978-0-13-468599-1'' @ ''\<newline>\<newline>Some text.'') [] =
     Some ''9780134685991''"
    using ext [of "''# Book\<newline>\<newline>''" "''\<newline>\<newline>Some text.''" "[]"] b e unfolding x by simp
  have 2: "extract_isbn ([] @ ''ISBN: 978-0-13-468599-1'' @ []) [] = Some ''9780134685991''"
    using ext [of "[]" "[]" "[]"] e0 unfolding x0 by simp
  have 3: "extract_isbn (''ISBN 0-306-40615-2\<newline>'' @ ''ISBN: 978-0-13-468599-1'' @ []) [] =
     Some ''0306406152''"
    using ext [of "''ISBN 0-306-40615-2\<newline>''" "[]" "[]"] b2 e0 unfolding x2 by simp
  have 4: "normalize_isbn (Some ''0-306-40615-x'') = Some ''030640615X''"
    by (rule trans [OF spec [of "''0-306-40615-x''"]]) code_simp
  have 5: "normalize_isbn (Some ''978-0-13-468599-1'') = Some ''9780134685991''"
    by (rule trans [OF spec [of "''978-0-13-468599-1''"]]) code_simp
  have 6: "normalize_isbn (Some ''12345'') = None"
    by (rule trans [OF spec [of "''12345''"]]) code_simp
  show ?thesis using e 1 2 3 4 5 6 by (intro conjI)
qed

text \<open>
  C6, as the claim states it, fails for a text that contains the line after another ISBN: the
  loop of \<open>extract_isbn\<close> returns the first candidate that normalises.
\<close>

theorem extract_isbn_earlier_counterexample:
  "extract_isbn ''ISBN 0-306-40615-2\<newline>ISBN: 978-0-13-468599-1'' [] = Some ''0306406152'' \<and>
   extract_isbn ''ISBN 0-306-40615-2\<newline>ISBN: 978-0-13-468599-1'' [] \<noteq> Some ''9780134685991''"
  by code_simp

text \<open>
  The candidate of \<open>ISBN_PATTERN\<close> may run over a line end, since its class of separators is
  \<open>\s\<close>: when the next line starts with a digit, the candidate takes that digit in and is
  rejected. The statement above leaves these texts out.
\<close>

lemma extract_isbn_candidate_runs_on:
  "ISBN_PATTERN_finditer None 0 ''ISBN: 978-0-13-468599-1\<newline>2nd edition'' =
     [''978-0-13-468599-1\<newline>2''] \<and>
   extract_isbn ''ISBN: 978-0-13-468599-1\<newline>2nd edition'' [] = None"
  by code_simp

section \<open>Repeating headers and footers\<close>

lemma counter_incr_opt_count:
  "counter_incr (\<lambda>t. opt_count (f t)) k = (\<lambda>t. opt_count (if t = k then f t + 1 else f t))"
  by (auto simp: counter_incr_def opt_count_def fun_eq_iff)

lemma line_step_entries:
  "page_entries (line_step ops config h st l) =
     page_entries st @ (if strip (get_text l) = [] then [] else [(strip (get_text l), classify ops config h l)])"
  by (simp add: line_step_def Let_def split: region.splits)

lemma line_step_header:
  assumes "p_header_counts st = (\<lambda>t. opt_count (count_in (base @ page_entries st) Header t))"
  shows "p_header_counts (line_step ops config h st l) =
     (\<lambda>t. opt_count (count_in (base @ page_entries (line_step ops config h st l)) Header t))"
proof (cases "strip (get_text l) = []")
  case True
  then show ?thesis using assms by (simp add: line_step_def)
next
  case False
  show ?thesis
  proof (cases "classify ops config h l")
    case Header
    then show ?thesis using False assms
      by (auto simp: line_step_def Let_def counter_incr_def opt_count_def count_in_def fun_eq_iff)
  next
    case Footer
    then show ?thesis using False assms
      by (auto simp: line_step_def Let_def count_in_def fun_eq_iff)
  next
    case Body
    then show ?thesis using False assms
      by (auto simp: line_step_def Let_def count_in_def fun_eq_iff)
  qed
qed

lemma line_step_footer:
  assumes "p_footer_counts st = (\<lambda>t. opt_count (count_in (base @ page_entries st) Footer t))"
  shows "p_footer_counts (line_step ops config h st l) =
     (\<lambda>t. opt_count (count_in (base @ page_entries (line_step ops config h st l)) Footer t))"
proof (cases "strip (get_text l) = []")
  case True
  then show ?thesis using assms by (simp add: line_step_def)
next
  case False
  show ?thesis
  proof (cases "classify ops config h l")
    case Header
    then show ?thesis using False assms
      by (auto simp: line_step_def Let_def count_in_def fun_eq_iff)
  next
    case Footer
    then show ?thesis using False assms
      by (auto simp: line_step_def Let_def counter_incr_def opt_count_def count_in_def fun_eq_iff)
  next
    case Body
    then show ?thesis using False assms
      by (auto simp: line_step_def Let_def count_in_def fun_eq_iff)
  qed
qed

lemma line_loop_entries:
  "page_entries (line_loop ops config h st ls) =
     page_entries st @
     map (\<lambda>l. (strip (get_text l), classify ops config h l)) (filter (\<lambda>l. strip (get_text l) \<noteq> []) ls)"
  by (induction ls arbitrary: st) (simp_all add: line_step_entries)

lemma line_loop_header:
  "p_header_counts st = (\<lambda>t. opt_count (count_in (base @ page_entries st) Header t)) \<Longrightarrow>
   p_header_counts (line_loop ops config h st ls) =
     (\<lambda>t. opt_count (count_in (base @ page_entries (line_loop ops config h st ls)) Header t))"
proof (induction ls arbitrary: st)
  case Nil
  then show ?case by simp
next
  case (Cons l ls)
  show ?case using Cons.IH[OF line_step_header[OF Cons.prems]] by simp
qed

lemma line_loop_footer:
  "p_footer_counts st = (\<lambda>t. opt_count (count_in (base @ page_entries st) Footer t)) \<Longrightarrow>
   p_footer_counts (line_loop ops config h st ls) =
     (\<lambda>t. opt_count (count_in (base @ page_entries (line_loop ops config h st ls)) Footer t))"
proof (induction ls arbitrary: st)
  case Nil
  then show ?case by simp
next
  case (Cons l ls)
  show ?case using Cons.IH[OF line_step_footer[OF Cons.prems]] by simp
qed

lemma page_step_pages:
  "pages (page_step ops config st page) = pages st @ [tagged_lines ops config page]"
  by (simp add: page_step_def Let_def line_loop_entries tagged_lines_def)

lemma page_step_total: "total_pages (page_step ops config st page) = total_pages st + 1"
  by (simp add: page_step_def Let_def)

lemma page_step_inv:
  assumes "collect_inv st"
  shows "collect_inv (page_step ops config st page)"
proof -
  let ?h = "case height page of None \<Rightarrow> f792 ops | Some h \<Rightarrow> h"
  let ?ps = "\<lparr>page_entries = [], p_header_counts = header_counts st,
              p_footer_counts = footer_counts st\<rparr>"
  have h: "p_header_counts ?ps = (\<lambda>t. opt_count (count_in (concat (pages st) @ page_entries ?ps) Header t))"
    using assms by (simp add: collect_inv_def)
  have f: "p_footer_counts ?ps = (\<lambda>t. opt_count (count_in (concat (pages st) @ page_entries ?ps) Footer t))"
    using assms by (simp add: collect_inv_def)
  show ?thesis
    using line_loop_header[OF h, of ops config ?h "text_lines page"]
      line_loop_footer[OF f, of ops config ?h "text_lines page"]
    by (simp add: collect_inv_def page_step_def Let_def)
qed

lemma page_loop_result:
  "collect_inv st \<Longrightarrow>
   collect_inv (page_loop ops config st ps) \<and>
   pages (page_loop ops config st ps) = pages st @ map (tagged_lines ops config) ps \<and>
   total_pages (page_loop ops config st ps) = total_pages st + length ps"
proof (induction ps arbitrary: st)
  case Nil
  then show ?case by simp
next
  case (Cons p ps)
  from Cons.IH[OF page_step_inv[OF Cons.prems]]
  show ?case by (simp add: page_step_pages page_step_total)
qed

lemma output_loop_nonblank:
  assumes "\<forall>e\<in>set (concat pgs). fst e \<noteq> []"
  shows "filter (\<lambda>l. l \<noteq> []) (output_loop keep out pgs) =
     filter (\<lambda>l. l \<noteq> []) out @ map fst (filter keep (concat pgs))"
  using assms
proof (induction pgs arbitrary: out)
  case Nil
  then show ?case by simp
next
  case (Cons p pgs)
  have ne: "filter (\<lambda>l. l \<noteq> []) (map fst (filter keep p)) = map fst (filter keep p)"
    using Cons.prems by (auto simp: filter_id_conv)
  have rest: "\<forall>e\<in>set (concat pgs). fst e \<noteq> []" using Cons.prems by simp
  show ?case
  proof (cases "map fst (filter keep p) = []")
    case True
    then have "filter keep p = []" by simp
    with True Cons.IH[OF rest, of out] show ?thesis by (simp add: Let_def)
  next
    case False
    then show ?thesis
      using Cons.IH[OF rest] ne by (simp add: Let_def)
  qed
qed

lemma normalize_blank_loop_nonblank:
  "filter (\<lambda>l. l \<noteq> []) (normalize_blank_loop acc ls) =
     filter (\<lambda>l. l \<noteq> []) acc @ filter (\<lambda>l. l \<noteq> []) ls"
  by (induction ls arbitrary: acc) simp_all

lemma tagged_lines_nonempty: "e \<in> set (tagged_lines ops config page) \<Longrightarrow> fst e \<noteq> []"
  by (auto simp: tagged_lines_def)

lemma all_tagged_nonempty: "e \<in> set (all_tagged ops config layouts) \<Longrightarrow> fst e \<noteq> []"
  by (auto simp: all_tagged_def dest: tagged_lines_nonempty)

lemma collect_text_lines_kept:
  "filter (\<lambda>l. l \<noteq> []) (collect_text_lines ops layouts config) =
     map fst (filter (retained ops config layouts) (all_tagged ops config layouts))"
proof -
  let ?init = "\<lparr>pages = [], header_counts = Map.empty, footer_counts = Map.empty, total_pages = 0\<rparr>"
  define st where "st = page_loop ops config ?init layouts"
  define all where "all = all_tagged ops config layouts"
  have "collect_inv ?init" by (simp add: collect_inv_def opt_count_def count_in_def)
  from page_loop_result[OF this, of ops config layouts]
  have inv: "collect_inv st" and pg: "pages st = map (tagged_lines ops config) layouts"
    and tot: "total_pages st = length layouts"
    by (simp_all add: st_def)
  have cat: "concat (pages st) = all" by (simp add: pg all_def all_tagged_def)
  define thr where "thr = threshold config layouts"
  define keep where "keep = keep_entry config (header_counts st) (footer_counts st) thr"
  have hc: "in_drop_set (header_counts st) thr x =
      (count_in all Header x \<noteq> 0 \<and> thr \<le> int (count_in all Header x))" for x
    using inv by (simp add: collect_inv_def in_drop_set_def opt_count_def cat)
  have fc: "in_drop_set (footer_counts st) thr x =
      (count_in all Footer x \<noteq> 0 \<and> thr \<le> int (count_in all Footer x))" for x
    using inv by (simp add: collect_inv_def in_drop_set_def opt_count_def cat)
  have pos: "count_in all r x \<noteq> 0" if "(x, r) \<in> set all" for x r
    using that by (auto simp: count_in_def filter_empty_conv)
  have keep: "keep e = retained ops config layouts e" if "e \<in> set all" for e
  proof -
    obtain x r where e: "e = (x, r)" by (cases e)
    show ?thesis
      using pos[of x r] that
      by (auto simp: e keep_def keep_entry_def hc fc retained_def region_count_def
          all_def[symmetric] thr_def[symmetric])
  qed
  define out where "out = output_loop keep [] (pages st)"
  define norm where "norm = normalize_blank_loop [] out"
  have res: "collect_text_lines ops layouts config =
      (if norm \<noteq> [] \<and> last norm \<noteq> [] then norm @ [[]] else norm)"
    unfolding norm_def out_def keep_def thr_def threshold_def collect_text_lines_def Let_def st_def
    using tot[unfolded st_def] by simp
  have "filter (\<lambda>l. l \<noteq> []) (collect_text_lines ops layouts config) =
      filter (\<lambda>l. l \<noteq> []) norm"
    by (simp add: res)
  also have "\<dots> = filter (\<lambda>l. l \<noteq> []) out"
    by (simp add: norm_def normalize_blank_loop_nonblank)
  also have "\<dots> = map fst (filter keep all)"
  proof -
    have "\<forall>e\<in>set (concat (pages st)). fst e \<noteq> []"
      using all_tagged_nonempty[of _ ops config layouts] by (simp add: cat all_def)
    from output_loop_nonblank[OF this, of keep "[]"] show ?thesis
      by (simp add: out_def cat)
  qed
  also have "filter keep all = filter (retained ops config layouts) all"
    using keep by (intro filter_cong) auto
  finally show ?thesis by (simp add: all_def)
qed

lemma collect_text_lines_member:
  assumes "t \<noteq> []"
  shows "t \<in> set (collect_text_lines ops layouts config) \<longleftrightarrow>
     (\<exists>r. occurs_tagged ops config layouts t r \<and> retained ops config layouts (t, r))"
proof -
  have "t \<in> set (collect_text_lines ops layouts config) \<longleftrightarrow>
      t \<in> set (filter (\<lambda>l. l \<noteq> []) (collect_text_lines ops layouts config))"
    using assms by simp
  also have "\<dots> \<longleftrightarrow> t \<in> fst ` {e \<in> set (all_tagged ops config layouts). retained ops config layouts e}"
    by (simp add: collect_text_lines_kept)
  also have "\<dots> \<longleftrightarrow> (\<exists>r. occurs_tagged ops config layouts t r \<and> retained ops config layouts (t, r))"
    by (force simp: occurs_tagged_def)
  finally show ?thesis .
qed

lemma occurs_tagged_nonempty: "occurs_tagged ops config layouts t r \<Longrightarrow> t \<noteq> []"
  using all_tagged_nonempty[of "(t, r)" ops config layouts] by (simp add: occurs_tagged_def)

text \<open>
  C5, as amended. Leaving the blank separator lines aside, the output is the list of the
  tagged lines that are retained, in reading order and each as often as it is retained: a
  header-tagged line is dropped wherever its text reaches the threshold among the header
  lines, a footer-tagged line wherever its text reaches the threshold among the footer lines,
  and any other line is retained exactly when no skip pattern matches it. The threshold is
  the configured value or, when that is not positive, the maximum of 2 and the integer
  quotient of the page count by 3. In particular, in a ten-page extraction with the default
  threshold where \<open>Chapter Footer\<close> occurs eight times as a footer and never as a header or in
  a body, the output has no line \<open>Chapter Footer\<close> and has every body line that no skip pattern
  matches.
\<close>

theorem collect_text_lines_filter:
  "filter (\<lambda>l. l \<noteq> []) (collect_text_lines ops layouts config) =
     map fst (filter (retained ops config layouts) (all_tagged ops config layouts)) \<and>
   (length layouts = 10 \<and> min_repeating config \<le> 0 \<and>
    region_count ops config layouts Footer ''Chapter Footer'' = 8 \<and>
    \<not> occurs_tagged ops config layouts ''Chapter Footer'' Header \<and>
    \<not> occurs_tagged ops config layouts ''Chapter Footer'' Body \<longrightarrow>
      ''Chapter Footer'' \<notin> set (collect_text_lines ops layouts config) \<and>
      (occurs_tagged ops config layouts b Body \<and> \<not> should_skip_text b (skip_patterns config) \<longrightarrow>
         b \<in> set (collect_text_lines ops layouts config)))"
proof -
  have 2: "''Chapter Footer'' \<notin> set (collect_text_lines ops layouts config)"
    if a: "length layouts = 10" "min_repeating config \<le> 0"
      "region_count ops config layouts Footer ''Chapter Footer'' = 8"
      "\<not> occurs_tagged ops config layouts ''Chapter Footer'' Header"
      "\<not> occurs_tagged ops config layouts ''Chapter Footer'' Body"
  proof -
    have thr: "threshold config layouts = 3" using a(1,2) by (simp add: threshold_def)
    have "\<not> (occurs_tagged ops config layouts ''Chapter Footer'' r \<and>
              retained ops config layouts (''Chapter Footer'', r))" for r
      using a(3,4,5) thr by (cases r) (simp_all add: retained_def)
    then show ?thesis
      using collect_text_lines_member[of "''Chapter Footer''" ops layouts config] by simp
  qed
  have 3: "b \<in> set (collect_text_lines ops layouts config)"
    if "occurs_tagged ops config layouts b Body" "\<not> should_skip_text b (skip_patterns config)"
  proof -
    have "retained ops config layouts (b, Body)" using that(2) by (simp add: retained_def)
    then show ?thesis
      using that(1) collect_text_lines_member[OF occurs_tagged_nonempty[OF that(1)], of ops layouts config]
      by blast
  qed
  show ?thesis using collect_text_lines_kept 2 3 by blast
qed

theorem collect_text_lines_filter_witness:
  "length ten_pages = 10 \<and> min_repeating default_config \<le> 0 \<and>
   region_count exact_ops default_config ten_pages Footer ''Chapter Footer'' = 8 \<and>
   occurs_tagged exact_ops default_config ten_pages ''Body nine'' Body \<and>
   ''Chapter Footer'' \<notin> set (collect_text_lines exact_ops ten_pages default_config) \<and>
   ''Body nine'' \<in> set (collect_text_lines exact_ops ten_pages default_config)"
proof -
  have a: "length ten_pages = 10" by code_simp
  have b: "min_repeating default_config \<le> 0" by code_simp
  have c: "region_count exact_ops default_config ten_pages Footer ''Chapter Footer'' = 8"
    by code_simp
  have d: "\<not> occurs_tagged exact_ops default_config ten_pages ''Chapter Footer'' Header"
    by code_simp
  have e: "\<not> occurs_tagged exact_ops default_config ten_pages ''Chapter Footer'' Body"
    by code_simp
  have f: "occurs_tagged exact_ops default_config ten_pages ''Body nine'' Body" by code_simp
  have g: "\<not> should_skip_text ''Body nine'' (skip_patterns default_config)" by code_simp
  show ?thesis
    using collect_text_lines_filter [of exact_ops ten_pages default_config "''Body nine''"]
      a b c d e f g
    by blast
qed

text \<open>
  C5, as the claim states it, fails: the body-tagged lines \<open>12\<close> and \<open>Page 3\<close> are not retained,
  because skip patterns match them.
\<close>

theorem collect_text_lines_skip_counterexample:
  "tagged_lines exact_ops default_config (plain_page ''12'') = [(''12'', Body)] \<and>
   tagged_lines exact_ops default_config (plain_page ''Page 3'') = [(''Page 3'', Body)] \<and>
   collect_text_lines exact_ops [plain_page ''12'', plain_page ''Page 3'', plain_page ''Text'']
     default_config = [''Text'', '''']"
  by code_simp

section \<open>Front-matter round trip\<close>

lemma rstrip_decomp: "\<exists>w. t = rstrip t @ w \<and> list_all py_isspace w"
proof -
  have "rev t = takeWhile py_isspace (rev t) @ dropWhile py_isspace (rev t)" by simp
  then have "t = rev (dropWhile py_isspace (rev t)) @ rev (takeWhile py_isspace (rev t))"
    by (metis rev_append rev_rev_ident)
  moreover have "list_all py_isspace (rev (takeWhile py_isspace (rev t)))"
    by (simp add: list_all_iff) (meson set_takeWhileD)
  ultimately show ?thesis unfolding rstrip_def by blast
qed

lemma lstrip_id: "s \<noteq> [] \<Longrightarrow> \<not> py_isspace (hd s) \<Longrightarrow> lstrip s = s"
  by (cases s) (simp_all add: lstrip_def)

lemma rstrip_id: "s \<noteq> [] \<Longrightarrow> \<not> py_isspace (last s) \<Longrightarrow> rstrip s = s"
proof -
  assume a: "s \<noteq> []" "\<not> py_isspace (last s)"
  then obtain c cs where r: "rev s = c # cs" by (cases "rev s") auto
  have "hd (rev s) = last s" using a(1) by (simp add: hd_rev)
  with r a(2) have "dropWhile py_isspace (rev s) = rev s" by simp
  then show ?thesis by (simp add: rstrip_def)
qed

lemma strip_id: "s \<noteq> [] \<Longrightarrow> \<not> py_isspace (hd s) \<Longrightarrow> \<not> py_isspace (last s) \<Longrightarrow> strip s = s"
  by (simp add: strip_def lstrip_id rstrip_id)

lemma rstrip_last: "rstrip t \<noteq> [] \<Longrightarrow> \<not> py_isspace (last (rstrip t))"
proof -
  assume "rstrip t \<noteq> []"
  then have ne: "dropWhile py_isspace (rev t) \<noteq> []" by (simp add: rstrip_def)
  then have "\<not> py_isspace (hd (dropWhile py_isspace (rev t)))" by (rule hd_dropWhile)
  then show ?thesis using ne by (simp add: rstrip_def last_rev)
qed

lemma rstrip_hd: "rstrip t \<noteq> [] \<Longrightarrow> hd (rstrip t) = hd t"
  using rstrip_decomp[of t] by (metis hd_append2)

lemma strip_fixed_ends:
  assumes "strip s = s" "s \<noteq> []"
  shows "\<not> py_isspace (hd s)" "\<not> py_isspace (last s)"
proof -
  have ne: "rstrip (lstrip s) \<noteq> []" using assms by (simp add: strip_def)
  then have l: "lstrip s \<noteq> []" by (auto simp: rstrip_def)
  have "\<not> py_isspace (hd (lstrip s))" using l unfolding lstrip_def by (rule hd_dropWhile)
  then have "\<not> py_isspace (hd (rstrip (lstrip s)))" using rstrip_hd[OF ne] by simp
  then show "\<not> py_isspace (hd s)" using assms by (simp add: strip_def)
  show "\<not> py_isspace (last s)" using rstrip_last[OF ne] assms by (simp add: strip_def)
qed

lemma space_facts:
  "py_isspace CHR '' ''" "\<not> py_isspace CHR '':''" "\<not> py_isspace CHR ''-''" "\<not> py_isspace dquote"
  by (simp_all add: py_isspace_def dquote_def)

lemma strip_space_cons: "strip (CHR '' '' # x) = strip x"
  by (simp add: strip_def lstrip_def space_facts)

lemma dict_set_fresh: "k \<notin> fst ` set md \<Longrightarrow> dict_set md k v = md @ [(k, v)]"
  by (induction md) auto

lemma dict_set_last: "k \<notin> fst ` set md \<Longrightarrow> dict_set (md @ [(k, w)]) k v = md @ [(k, v)]"
  by (induction md) auto

lemma dict_get_last: "k \<notin> fst ` set md \<Longrightarrow> dict_get (md @ [(k, w)]) k = Some w"
  by (induction md) (auto simp: dict_get_def)

lemma wf_key_line_checks:
  assumes k: "wf_key k" and l: "\<not> py_isspace (last (k @ CHR '':'' # r))"
  shows "strip (k @ CHR '':'' # r) = k @ CHR '':'' # r"
    "\<not> startswith (k @ CHR '':'' # r) ''#''"
    "\<not> startswith (k @ CHR '':'' # r) ''- ''"
    "takeWhile (\<lambda>c. c \<noteq> CHR '':'') (k @ CHR '':'' # r) = k"
    "dropWhile (\<lambda>c. c \<noteq> CHR '':'') (k @ CHR '':'' # r) = CHR '':'' # r"
proof -
  from k have ne: "k \<noteq> []" and fx: "strip k = k" and nc: "CHR '':'' \<notin> set k"
    and nh: "\<not> startswith k ''#''" and nd: "\<not> startswith k ''- ''"
    by (simp_all add: wf_key_def)
  have hd: "\<not> py_isspace (hd k)" using strip_fixed_ends(1)[OF fx ne] .
  show "strip (k @ CHR '':'' # r) = k @ CHR '':'' # r"
    using ne hd l by (intro strip_id) simp_all
  show "\<not> startswith (k @ CHR '':'' # r) ''#''"
    using ne nh by (cases k) (simp_all add: startswith_def)
  show "\<not> startswith (k @ CHR '':'' # r) ''- ''"
  proof (cases k)
    case Nil
    with ne show ?thesis by simp
  next
    case (Cons c k')
    then show ?thesis using nd by (cases k') (auto simp: startswith_def)
  qed
  show "takeWhile (\<lambda>c. c \<noteq> CHR '':'') (k @ CHR '':'' # r) = k"
  proof -
    have "\<forall>c\<in>set k. c \<noteq> CHR '':''" using nc by auto
    then show ?thesis by simp
  qed
  show "dropWhile (\<lambda>c. c \<noteq> CHR '':'') (k @ CHR '':'' # r) = CHR '':'' # r"
  proof -
    have "\<forall>c\<in>set k. c \<noteq> CHR '':''" using nc by auto
    then show ?thesis by simp
  qed
qed


lemma endswith_snoc: "endswith (y @ [c]) [c]"
  by (simp add: endswith_def)

lemma startswith_cons: "startswith (c # y) [d] = (c = d)"
  by (simp add: startswith_def)

lemma not_needs_quotes:
  assumes "\<not> needs_quotes v"
  shows "v \<noteq> []" "strip v = v" "dquote \<notin> set v" "squote \<notin> set v"
  using assms by (auto simp: needs_quotes_def split: if_splits)

lemma parse_loop_append:
  "parse_loop st (xs @ ys) =
     (case parse_loop st xs of None \<Rightarrow> None | Some st' \<Rightarrow> parse_loop st' ys)"
  by (induction xs arbitrary: st) (auto split: option.splits)

lemma parse_line_list_key:
  assumes k: "wf_key k" and f: "k \<notin> set (p_order st)" "k \<notin> fst ` set (p_metadata st)"
  shows "parse_line st (k @ '':'') =
     Some (st\<lparr>p_metadata := p_metadata st @ [(k, Items [])], p_order := p_order st @ [k],
               current_key := Some k\<rparr>)"
proof -
  have l: "\<not> py_isspace (last (k @ CHR '':'' # []))" by (simp add: space_facts)
  note c = wf_key_line_checks[OF k l]
  have ne: "k \<noteq> []" and fx: "strip k = k" using k by (simp_all add: wf_key_def)
  show ?thesis
    using c ne fx f
    by (simp add: parse_line_def Let_def strip_Nil dict_set_fresh)
qed

lemma parse_line_scalar:
  assumes k: "wf_key k" and f: "k \<notin> set (p_order st)" "k \<notin> fst ` set (p_metadata st)"
    and x: "x \<noteq> []" "\<not> py_isspace (hd x)" "\<not> py_isspace (last x)"
  shows "parse_line st (k @ '': '' @ x) =
     (if (startswith x [dquote] \<and> endswith x [dquote]) \<or>
         (startswith x [squote] \<and> endswith x [squote])
      then Some (st\<lparr>p_metadata := p_metadata st @ [(k, Scalar (butlast (tl x)))],
                     p_order := p_order st @ [k], p_quoted := insert k (p_quoted st),
                     current_key := Some k\<rparr>)
      else Some (st\<lparr>p_metadata := p_metadata st @ [(k, Scalar x)],
                     p_order := p_order st @ [k], current_key := Some k\<rparr>))"
proof -
  have l: "\<not> py_isspace (last (k @ CHR '':'' # CHR '' '' # x))" using x by simp
  note c = wf_key_line_checks[OF k l]
  have ne: "k \<noteq> []" and fx: "strip k = k" using k by (simp_all add: wf_key_def)
  have v: "strip (CHR '' '' # x) = x" using x by (simp add: strip_space_cons strip_id)
  show ?thesis
    using c ne fx f v x(1)
    by (simp add: parse_line_def Let_def dict_set_fresh)
qed

lemma parse_line_item:
  assumes i: "\<not> needs_quotes item"
    and st: "current_key st = Some k" "k \<noteq> []" "p_metadata st = md0 @ [(k, Items ys)]"
      "k \<notin> fst ` set md0"
  shows "parse_line st (''  - '' @ item) =
     Some (st\<lparr>p_metadata := md0 @ [(k, Items (ys @ [item]))]\<rparr>)"
proof -
  note q = not_needs_quotes[OF i]
  have ends: "\<not> py_isspace (hd item)" "\<not> py_isspace (last item)"
    using strip_fixed_ends[OF q(2) q(1)] by simp_all
  have "strip (CHR '' '' # CHR '' '' # CHR ''-'' # CHR '' '' # item) =
        strip (CHR ''-'' # CHR '' '' # item)"
    by (simp add: strip_space_cons)
  also have "\<dots> = CHR ''-'' # CHR '' '' # item"
    using q(1) ends by (intro strip_id) (simp_all add: space_facts)
  finally have s: "strip (CHR '' '' # CHR '' '' # CHR ''-'' # CHR '' '' # item) =
        CHR ''-'' # CHR '' '' # item" .
  show ?thesis
    using st q(2)
    by (simp add: parse_line_def Let_def s startswith_def dict_get_last dict_set_last)
qed

lemma parse_loop_items:
  assumes "list_all (\<lambda>item. \<not> needs_quotes item) xs"
    and "current_key st = Some k" "k \<noteq> []" "p_metadata st = md0 @ [(k, Items ys)]"
      "k \<notin> fst ` set md0"
  shows "parse_loop st (map (\<lambda>item. ''  - '' @ item) xs @ rest) =
     parse_loop (st\<lparr>p_metadata := md0 @ [(k, Items (ys @ xs))]\<rparr>) rest"
  using assms
proof (induction xs arbitrary: st ys)
  case Nil
  have "st\<lparr>p_metadata := p_metadata st\<rparr> = st" by simp
  then have "st\<lparr>p_metadata := md0 @ [(k, Items ys)]\<rparr> = st"
    by (simp only: Nil.prems(4))
  then show ?case by simp
next
  case (Cons x xs)
  have i: "\<not> needs_quotes x" using Cons.prems(1) by simp
  have r: "list_all (\<lambda>item. \<not> needs_quotes item) xs" using Cons.prems(1) by simp
  let ?st1 = "st\<lparr>p_metadata := md0 @ [(k, Items (ys @ [x]))]\<rparr>"
  have "parse_line st (''  - '' @ x) = Some ?st1"
    using parse_line_item[OF i Cons.prems(2,3,4,5)] .
  moreover have "parse_loop ?st1 (map (\<lambda>item. ''  - '' @ item) xs @ rest) =
      parse_loop (?st1\<lparr>p_metadata := md0 @ [(k, Items ((ys @ [x]) @ xs))]\<rparr>) rest"
    using Cons.prems(2,3,5) by (intro Cons.IH[OF r]) simp_all
  ultimately show ?case by simp
qed


lemma escape_quotes_id: "dquote \<notin> set s \<Longrightarrow> escape_quotes s = s"
  by (induction s) (auto simp: escape_quotes_def)

lemma needs_quotes_Nil: "needs_quotes []"
  by (simp add: needs_quotes_def)

lemma state_all:
  "st\<lparr>p_metadata := a, p_order := b, p_quoted := c, current_key := d\<rparr> =
     \<lparr>p_metadata = a, p_order = b, p_quoted = c, current_key = d\<rparr>"
  by (cases st) simp

lemma state_three:
  "st\<lparr>p_metadata := a, p_order := b, current_key := d\<rparr> =
     \<lparr>p_metadata = a, p_order = b, p_quoted = p_quoted st, current_key = d\<rparr>"
  by (cases st) simp

lemma parse_loop_key:
  assumes k: "wf_key k" and f: "k \<notin> set (p_order st)" "k \<notin> fst ` set (p_metadata st)"
    and v: "\<And>v. dict_get md k = Some v \<Longrightarrow> wf_value v"
  shows "parse_loop st (serialize_key md quoted k @ rest) =
     parse_loop \<lparr>p_metadata = p_metadata st @ [(k, reparsed_value md k)],
                 p_order = p_order st @ [k],
                 p_quoted = (if written_quoted md quoted k then insert k (p_quoted st)
                             else p_quoted st),
                 current_key = Some k\<rparr> rest"
proof (cases "dict_get md k")
  case None
  have x: "[dquote, dquote] \<noteq> []" "\<not> py_isspace (hd [dquote, dquote])"
    "\<not> py_isspace (last [dquote, dquote])" by (simp_all add: space_facts)
  have "parse_line st (k @ '': '' @ [dquote, dquote]) =
      Some (st\<lparr>p_metadata := p_metadata st @ [(k, Scalar [])], p_order := p_order st @ [k],
                p_quoted := insert k (p_quoted st), current_key := Some k\<rparr>)"
    using parse_line_scalar[OF k f x] by (simp add: startswith_def endswith_def)
  then show ?thesis
    using None
    by (simp add: serialize_key_def format_scalar_value_def needs_quotes_Nil escape_quotes_def
        reparsed_value_def written_quoted_def state_all)
next
  case (Some val)
  note wf = v[OF Some]
  show ?thesis
  proof (cases val)
    case (Scalar s)
    then have nq: "dquote \<notin> set s" using wf by simp
    show ?thesis
    proof (cases "k \<in> quoted \<or> needs_quotes s")
      case True
      let ?x = "dquote # s @ [dquote]"
      have x: "?x \<noteq> []" "\<not> py_isspace (hd ?x)" "\<not> py_isspace (last ?x)"
        by (simp_all add: space_facts)
      have e: "endswith ?x [dquote]" using endswith_snoc[of "dquote # s" dquote] by simp
      have "parse_line st (k @ '': '' @ ?x) =
          Some (st\<lparr>p_metadata := p_metadata st @ [(k, Scalar s)], p_order := p_order st @ [k],
                    p_quoted := insert k (p_quoted st), current_key := Some k\<rparr>)"
        using parse_line_scalar[OF k f x] e by (simp add: startswith_cons)
      then show ?thesis
        using True Some Scalar nq
        by (auto simp: serialize_key_def format_scalar_value_def escape_quotes_id
            reparsed_value_def written_quoted_def state_all)
    next
      case False
      then have n: "\<not> needs_quotes s" and nk: "k \<notin> quoted" by simp_all
      note q = not_needs_quotes[OF n]
      have ends: "\<not> py_isspace (hd s)" "\<not> py_isspace (last s)"
        using strip_fixed_ends[OF q(2) q(1)] by simp_all
      have nst1: "\<not> startswith s [dquote]"
        using q(1,3) by (cases s) (auto simp: startswith_cons)
      have nst2: "\<not> startswith s [squote]"
        using q(1,4) by (cases s) (auto simp: startswith_cons)
      note nst = nst1 nst2
      have "parse_line st (k @ '': '' @ s) =
          Some (st\<lparr>p_metadata := p_metadata st @ [(k, Scalar s)], p_order := p_order st @ [k],
                    current_key := Some k\<rparr>)"
        using parse_line_scalar[OF k f q(1) ends] nst by simp
      then show ?thesis
        using n nk Some Scalar
        by (simp add: serialize_key_def format_scalar_value_def reparsed_value_def
            written_quoted_def state_three)
    qed
  next
    case (Items xs)
    then have it: "list_all (\<lambda>item. \<not> needs_quotes item) xs" using wf by simp
    have same: "map (\<lambda>item. CHR '' '' # CHR '' '' # CHR ''-'' # CHR '' '' #
                                format_scalar_value (Some item) False) xs =
        map (\<lambda>item. CHR '' '' # CHR '' '' # CHR ''-'' # CHR '' '' # item) xs"
      using it by (induction xs) (simp_all add: format_scalar_value_def)
    let ?st1 = "st\<lparr>p_metadata := p_metadata st @ [(k, Items [])], p_order := p_order st @ [k],
                   current_key := Some k\<rparr>"
    have ne: "k \<noteq> []" using k by (simp add: wf_key_def)
    have 1: "parse_line st (k @ '':'') = Some ?st1" using parse_line_list_key[OF k f] .
    have 2: "parse_loop ?st1 (map (\<lambda>item. ''  - '' @ item) xs @ rest) =
        parse_loop (?st1\<lparr>p_metadata := p_metadata st @ [(k, Items ([] @ xs))]\<rparr>) rest"
      using f(2) ne by (intro parse_loop_items[OF it]) simp_all
    show ?thesis
      using Some Items 1 2
      by (simp add: serialize_key_def same reparsed_value_def written_quoted_def state_three)
  qed
qed

lemma parse_loop_keys:
  assumes "distinct ks"
    and "\<And>k. k \<in> set ks \<Longrightarrow> wf_key k"
    and "set ks \<inter> set (p_order st) = {}" "set ks \<inter> fst ` set (p_metadata st) = {}"
    and "\<And>k v. k \<in> set ks \<Longrightarrow> dict_get md k = Some v \<Longrightarrow> wf_value v"
  shows "parse_loop st (concat (map (serialize_key md quoted) ks)) =
     Some \<lparr>p_metadata = p_metadata st @ map (\<lambda>k. (k, reparsed_value md k)) ks,
           p_order = p_order st @ ks,
           p_quoted = p_quoted st \<union> {k \<in> set ks. written_quoted md quoted k},
           current_key = (if ks = [] then current_key st else Some (last ks))\<rparr>"
  using assms
proof (induction ks arbitrary: st)
  case Nil
  then show ?case by simp
next
  case (Cons k ks)
  let ?st1 = "\<lparr>p_metadata = p_metadata st @ [(k, reparsed_value md k)],
               p_order = p_order st @ [k],
               p_quoted = (if written_quoted md quoted k then insert k (p_quoted st)
                           else p_quoted st),
               current_key = Some k\<rparr>"
  have k: "wf_key k" using Cons.prems(2) by simp
  have f: "k \<notin> set (p_order st)" "k \<notin> fst ` set (p_metadata st)"
    using Cons.prems(3,4) by auto
  have v: "\<And>v. dict_get md k = Some v \<Longrightarrow> wf_value v" using Cons.prems(5)[of k] by simp
  have step: "parse_loop st (serialize_key md quoted k @ concat (map (serialize_key md quoted) ks)) =
      parse_loop ?st1 (concat (map (serialize_key md quoted) ks))"
    using parse_loop_key[OF k f v] .
  have d: "distinct ks" "k \<notin> set ks" using Cons.prems(1) by simp_all
  have ih: "parse_loop ?st1 (concat (map (serialize_key md quoted) ks)) =
     Some \<lparr>p_metadata = p_metadata ?st1 @ map (\<lambda>k. (k, reparsed_value md k)) ks,
           p_order = p_order ?st1 @ ks,
           p_quoted = p_quoted ?st1 \<union> {k \<in> set ks. written_quoted md quoted k},
           current_key = (if ks = [] then current_key ?st1 else Some (last ks))\<rparr>"
  proof (rule Cons.IH[OF d(1)])
    show "\<And>k. k \<in> set ks \<Longrightarrow> wf_key k" using Cons.prems(2) by simp
    show "set ks \<inter> set (p_order ?st1) = {}" using Cons.prems(3) d(2) by auto
    show "set ks \<inter> fst ` set (p_metadata ?st1) = {}" using Cons.prems(4) d(2) by auto
    show "\<And>k v. k \<in> set ks \<Longrightarrow> dict_get md k = Some v \<Longrightarrow> wf_value v"
      using Cons.prems(5) by (meson list.set_intros(2))
  qed
  have "p_quoted ?st1 \<union> {k \<in> set ks. written_quoted md quoted k} =
      p_quoted st \<union> {k' \<in> set (k # ks). written_quoted md quoted k'}"
    by auto
  then show ?case using step ih by simp
qed


lemma serialize_loop_emitted:
  "serialize_loop md quoted seen keys =
     concat (map (serialize_key md quoted) (emitted_keys seen keys))"
  by (induction keys arbitrary: seen) simp_all

lemma emitted_keys_set: "set (emitted_keys seen keys) = set keys - set seen"
  by (induction keys arbitrary: seen) auto

lemma emitted_keys_distinct: "distinct (emitted_keys seen keys)"
  by (induction keys arbitrary: seen) (auto simp: emitted_keys_set)

lemma emitted_keys_id:
  "distinct ks \<Longrightarrow> set ks \<inter> set seen = {} \<Longrightarrow> emitted_keys seen ks = ks"
  by (induction ks arbitrary: seen) auto

lemma dict_get_map:
  "k \<in> set ks \<Longrightarrow> dict_get (map (\<lambda>k. (k, f k)) ks) k = Some (f k)"
  by (induction ks) (auto simp: dict_get_def)

lemma format_scalar_value_None: "format_scalar_value None b = format_scalar_value (Some []) True"
  by (simp add: format_scalar_value_def needs_quotes_Nil)

lemma serialize_key_reparsed:
  assumes "k \<in> set ks"
  shows "serialize_key (map (\<lambda>k. (k, reparsed_value md k)) ks)
           {k \<in> set ks. written_quoted md quoted k} k =
         serialize_key md quoted k"
proof -
  have g: "dict_get (map (\<lambda>k. (k, reparsed_value md k)) ks) k = Some (reparsed_value md k)"
    using assms by (rule dict_get_map)
  show ?thesis
  proof (cases "dict_get md k")
    case None
    then show ?thesis
      using assms g
      by (simp add: serialize_key_def reparsed_value_def written_quoted_def
          format_scalar_value_def needs_quotes_Nil)
  next
    case (Some v)
    then show ?thesis
      using assms g
      by (cases v)
        (auto simp: serialize_key_def reparsed_value_def written_quoted_def
          format_scalar_value_def)
  qed
qed

lemma strip_dashes: "strip ''---'' = ''---''"
  by code_simp

lemma wf_front_matter_keys:
  assumes "wf_front_matter md order" "k \<in> set (written_keys md order)"
  shows "wf_key k"
proof -
  from assms(2) have "k \<in> set order \<or> k \<in> fst ` set md"
    by (auto simp: written_keys_def emitted_keys_set)
  then show ?thesis
    using assms(1) by (auto simp: wf_front_matter_def list_all_iff)
qed

lemma wf_front_matter_values:
  assumes "wf_front_matter md order" "dict_get md k = Some v"
  shows "wf_value v"
proof -
  from assms(2) have "(k, v) \<in> set md" by (simp add: dict_get_def map_of_SomeD)
  then show ?thesis using assms(1) by (auto simp: wf_front_matter_def list_all_iff)
qed

text \<open>
  Where the round trip holds. Take metadata whose keys, and the keys of \<open>order\<close>, are keys as
  the parser produces them, whose scalars hold no double quote and whose list items are
  written without quotes. Then \<open>parse_front_matter_block\<close> reads the block of
  \<open>serialize_front_matter\<close> back: the keys in the order they were written, each list with its
  items, each scalar with its text, and in the quoted set the keys whose scalar was written
  in quotes. Serializing that result gives the same block again.
\<close>

lemma front_matter_round_trip_plain:
  "wf_front_matter md order \<longrightarrow>
     parse_front_matter_block (serialize_front_matter md order quoted) =
       Some (map (\<lambda>k. (k, reparsed_value md k)) (written_keys md order),
             written_keys md order,
             {k \<in> set (written_keys md order). written_quoted md quoted k}) \<and>
     serialize_front_matter
       (map (\<lambda>k. (k, reparsed_value md k)) (written_keys md order))
       (written_keys md order)
       {k \<in> set (written_keys md order). written_quoted md quoted k} =
     serialize_front_matter md order quoted"
proof
  assume wf: "wf_front_matter md order"
  define ks where "ks = written_keys md order"
  define body where "body = concat (map (serialize_key md quoted) ks)"
  have ser: "serialize_front_matter md order quoted = ''---'' # body @ [''---'']"
    by (simp add: serialize_front_matter_def serialize_loop_emitted body_def ks_def
        written_keys_def)
  have d: "distinct ks" by (simp add: ks_def written_keys_def emitted_keys_distinct)
  let ?init = "\<lparr>p_metadata = [], p_order = [], p_quoted = {}, current_key = None\<rparr>"
  have loop: "parse_loop ?init body =
     Some \<lparr>p_metadata = p_metadata ?init @ map (\<lambda>k. (k, reparsed_value md k)) ks,
           p_order = p_order ?init @ ks,
           p_quoted = p_quoted ?init \<union> {k \<in> set ks. written_quoted md quoted k},
           current_key = (if ks = [] then current_key ?init else Some (last ks))\<rparr>"
    unfolding body_def
  proof (rule parse_loop_keys[OF d])
    show "\<And>k. k \<in> set ks \<Longrightarrow> wf_key k"
      using wf_front_matter_keys[OF wf] by (simp add: ks_def)
    show "set ks \<inter> set (p_order ?init) = {}" by simp
    show "set ks \<inter> fst ` set (p_metadata ?init) = {}" by simp
    show "\<And>k v. k \<in> set ks \<Longrightarrow> dict_get md k = Some v \<Longrightarrow> wf_value v"
      using wf_front_matter_values[OF wf] by blast
  qed
  have parse: "parse_front_matter_block (serialize_front_matter md order quoted) =
       Some (map (\<lambda>k. (k, reparsed_value md k)) ks, ks,
             {k \<in> set ks. written_quoted md quoted k})"
    using loop by (simp add: ser parse_front_matter_block_def strip_dashes butlast_append)
  have keys2: "written_keys (map (\<lambda>k. (k, reparsed_value md k)) ks) ks = ks"
    using d by (simp add: written_keys_def emitted_keys_id comp_def)
  have "serialize_front_matter (map (\<lambda>k. (k, reparsed_value md k)) ks) ks
          {k \<in> set ks. written_quoted md quoted k} =
        ''---'' # concat (map (serialize_key (map (\<lambda>k. (k, reparsed_value md k)) ks)
                                 {k \<in> set ks. written_quoted md quoted k}) ks) @ [''---'']"
    using keys2
    by (simp add: serialize_front_matter_def serialize_loop_emitted written_keys_def)
  also have "map (serialize_key (map (\<lambda>k. (k, reparsed_value md k)) ks)
                    {k \<in> set ks. written_quoted md quoted k}) ks =
             map (serialize_key md quoted) ks"
    using serialize_key_reparsed by (intro map_cong) auto
  finally have again: "serialize_front_matter (map (\<lambda>k. (k, reparsed_value md k)) ks) ks
          {k \<in> set ks. written_quoted md quoted k} = serialize_front_matter md order quoted"
    by (simp add: ser body_def)
  show "parse_front_matter_block (serialize_front_matter md order quoted) =
       Some (map (\<lambda>k. (k, reparsed_value md k)) (written_keys md order),
             written_keys md order,
             {k \<in> set (written_keys md order). written_quoted md quoted k}) \<and>
     serialize_front_matter
       (map (\<lambda>k. (k, reparsed_value md k)) (written_keys md order))
       (written_keys md order)
       {k \<in> set (written_keys md order). written_quoted md quoted k} =
     serialize_front_matter md order quoted"
    using parse again by (simp add: ks_def)
qed

lemma front_matter_round_trip_plain_example:
  "wf_front_matter
     [(''title'', Scalar ''My Book''), (''tags'', Items [''a'', ''b c'']),
      (''isbn'', Scalar ''9780134685991'')] [''title'', ''date''] \<and>
   parse_front_matter_block
     (serialize_front_matter
        [(''title'', Scalar ''My Book''), (''tags'', Items [''a'', ''b c'']),
         (''isbn'', Scalar ''9780134685991'')] [''title'', ''date''] {''isbn''}) =
     Some ([(''title'', Scalar ''My Book''), (''date'', Scalar []),
            (''tags'', Items [''a'', ''b c'']), (''isbn'', Scalar ''9780134685991'')],
           [''title'', ''date'', ''tags'', ''isbn''], {''date'', ''isbn''}) \<and>
   serialize_front_matter
     [(''title'', Scalar ''My Book''), (''date'', Scalar []),
      (''tags'', Items [''a'', ''b c'']), (''isbn'', Scalar ''9780134685991'')]
     [''title'', ''date'', ''tags'', ''isbn''] {''date'', ''isbn''} =
   serialize_front_matter
     [(''title'', Scalar ''My Book''), (''tags'', Items [''a'', ''b c'']),
      (''isbn'', Scalar ''9780134685991'')] [''title'', ''date''] {''isbn''}"
proof -
  let ?md = "[(''title'', Scalar ''My Book''), (''tags'', Items [''a'', ''b c'']),
              (''isbn'', Scalar ''9780134685991'')]"
  let ?order = "[''title'', ''date'']"
  have wf: "wf_front_matter ?md ?order" by code_simp
  have ks: "written_keys ?md ?order = [''title'', ''date'', ''tags'', ''isbn'']" by code_simp
  have m: "map (\<lambda>k. (k, reparsed_value ?md k)) [''title'', ''date'', ''tags'', ''isbn''] =
      [(''title'', Scalar ''My Book''), (''date'', Scalar []),
       (''tags'', Items [''a'', ''b c'']), (''isbn'', Scalar ''9780134685991'')]"
    by code_simp
  have q: "{k \<in> set [''title'', ''date'', ''tags'', ''isbn'']. written_quoted ?md {''isbn''} k} =
      {''date'', ''isbn''}"
    by code_simp
  show ?thesis
    using front_matter_round_trip_plain [of ?md ?order "{''isbn''}"] wf
    unfolding ks m q by blast
qed

text \<open>
  C2. The round trip fails for a list item that the serializer writes in quotes. The front
  matter with the line \<open>identifier:\<close> and the item \<open>urn:isbn:1\<close> is parsed to a list with that
  item. \<open>serialize_front_matter\<close> writes the item in double quotes, since it holds a colon.
  \<open>parse_front_matter_block\<close> removes the quotes of a scalar but not those of a list item, and
  it never undoes the escaping of a double quote: the block is read back with the quotes as
  part of the item, and serializing again writes another block, the quotes escaped and
  quoted once more.
\<close>

theorem front_matter_quoted_item_round_trip:
  "parse_front_matter_block [''---'', ''identifier:'', ''  - urn:isbn:1'', ''---''] =
     Some ([(''identifier'', Items [''urn:isbn:1''])], [''identifier''], {}) \<and>
   serialize_front_matter [(''identifier'', Items [''urn:isbn:1''])] [''identifier''] {} =
     [''---'', ''identifier:'', ''  - '' @ [dquote] @ ''urn:isbn:1'' @ [dquote], ''---''] \<and>
   parse_front_matter_block
     [''---'', ''identifier:'', ''  - '' @ [dquote] @ ''urn:isbn:1'' @ [dquote], ''---''] =
     Some ([(''identifier'', Items [[dquote] @ ''urn:isbn:1'' @ [dquote]])], [''identifier''], {}) \<and>
   serialize_front_matter
     [(''identifier'', Items [[dquote] @ ''urn:isbn:1'' @ [dquote]])] [''identifier''] {} =
     [''---'', ''identifier:'',
      ''  - '' @ [dquote, CHR 0x5C, dquote] @ ''urn:isbn:1'' @ [CHR 0x5C, dquote, dquote], ''---'']"
  by code_simp

theorem front_matter_quoted_item_round_trip_witness:
  "parse_front_matter_block
     (serialize_front_matter [(''identifier'', Items [''urn:isbn:1''])] [''identifier''] {}) \<noteq>
     Some ([(''identifier'', Items [''urn:isbn:1''])], [''identifier''], {})"
proof -
  have "[dquote] @ ''urn:isbn:1'' @ [dquote] \<noteq> ''urn:isbn:1''" by simp
  then show ?thesis using front_matter_quoted_item_round_trip by simp
qed

text \<open>
  The same slip on a scalar: a double quote is escaped when the scalar is written and the
  backslash stays when it is read back.
\<close>

lemma front_matter_escaped_quote_read_back:
  "serialize_front_matter [(''title'', Scalar (''a'' @ [dquote] @ ''b''))] [''title''] {} =
     [''---'', ''title: '' @ [dquote] @ ''a'' @ [CHR 0x5C, dquote] @ ''b'' @ [dquote], ''---''] \<and>
   parse_front_matter_block
     [''---'', ''title: '' @ [dquote] @ ''a'' @ [CHR 0x5C, dquote] @ ''b'' @ [dquote], ''---''] =
     Some ([(''title'', Scalar (''a'' @ [CHR 0x5C, dquote] @ ''b''))], [''title''], {''title''})"
  by code_simp

end
